theory Spec2Isabelle
  imports Complex_Main "HOL-Library.Stream" "HOL-Library.Multiset" "HOL-Library.Product_Lexorder"
begin

section \<open>The pseudo-random generator used by \<^verbatim>\<open>preprocess_data.py\<close>\<close>

text \<open>
  The synthesizer draws from Python's module-level generator (\<^verbatim>\<open>random.seed\<close>,
  \<^verbatim>\<open>random.randint\<close>, \<^verbatim>\<open>random.random\<close>, \<^verbatim>\<open>random.shuffle\<close>, \<^verbatim>\<open>random.sample\<close>,
  \<^verbatim>\<open>random.choice\<close>). The generator state is an infinite stream of raw draws; every
  primitive consumes draws from the front. Which stream a seed produces is the Mersenne
  Twister's business: it is a parameter \<open>sd :: int \<Rightarrow> rng\<close> of every function that
  calls \<^verbatim>\<open>random.seed\<close>, so whatever is proved holds for every generator.
  \<open>randbelow n\<close> is one raw draw reduced modulo \<open>n\<close> (CPython draws bits and redraws
  until the value is below \<open>n\<close>, which only changes how many raw draws are used).
  Floats are read as reals.
\<close>

type_synonym rng = "nat stream"

datatype error = ValueError | IndexError

definition randbelow :: "nat \<Rightarrow> rng \<Rightarrow> nat \<times> rng" where
  "randbelow n g = (shd g mod n, stl g)"

text \<open>\<^verbatim>\<open>random.randint(a, b)\<close>: an integer of the closed range \<open>[a, b]\<close>.\<close>

definition randint :: "int \<Rightarrow> int \<Rightarrow> rng \<Rightarrow> int \<times> rng" where
  "randint a b g = (a + int (shd g mod nat (b - a + 1)), stl g)"

text \<open>\<^verbatim>\<open>random.random()\<close>: a multiple of \<open>2\<^sup>-\<^sup>5\<^sup>3\<close> in \<open>[0, 1)\<close>.\<close>

definition random_unit :: "rng \<Rightarrow> real \<times> rng" where
  "random_unit g = (of_nat (shd g mod 2 ^ 53) / 2 ^ 53, stl g)"

text \<open>
  \<^verbatim>\<open>random.shuffle(x)\<close>:
  \<^verbatim>\<open>for i in reversed(range(1, len(x))): j = randbelow(i + 1); x[i], x[j] = x[j], x[i]\<close>.
\<close>

definition swap :: "nat \<Rightarrow> nat \<Rightarrow> 'a list \<Rightarrow> 'a list" where
  "swap i j xs = xs[i := xs ! j, j := xs ! i]"

fun shuffle_from :: "nat \<Rightarrow> 'a list \<Rightarrow> rng \<Rightarrow> 'a list \<times> rng" where
  "shuffle_from 0 xs g = (xs, g)"
| "shuffle_from (Suc i) xs g =
     (case randbelow (Suc i + 1) g of (j, g') \<Rightarrow> shuffle_from i (swap (Suc i) j xs) g')"

definition shuffle :: "'a list \<Rightarrow> rng \<Rightarrow> 'a list \<times> rng" where
  "shuffle xs g = shuffle_from (length xs - 1) xs g"

text \<open>
  \<^verbatim>\<open>random.sample(population, k)\<close>: \<^verbatim>\<open>ValueError\<close> when \<open>k\<close> exceeds the population
  (or is negative), else \<open>k\<close> picks without replacement: each pick takes position \<open>j\<close> of
  the pool and moves the pool's last element into the hole. (For a large population
  CPython instead redraws positions already taken; both select \<open>k\<close> distinct positions.)
\<close>

fun sample_loop :: "nat \<Rightarrow> 'a list \<Rightarrow> rng \<Rightarrow> 'a list \<times> rng" where
  "sample_loop 0 pool g = ([], g)"
| "sample_loop (Suc k) pool g =
     (case randbelow (length pool) g of (j, g') \<Rightarrow>
        (case sample_loop k (butlast (pool[j := last pool])) g' of
           (result, g'') \<Rightarrow> (pool ! j # result, g'')))"

definition sample :: "'a list \<Rightarrow> int \<Rightarrow> rng \<Rightarrow> error + ('a list \<times> rng)" where
  "sample population k g =
     (if 0 \<le> k \<and> k \<le> int (length population)
      then Inr (sample_loop (nat k) population g)
      else Inl ValueError)"

text \<open>\<^verbatim>\<open>random.choice(seq)\<close>: \<^verbatim>\<open>IndexError\<close> on an empty sequence.\<close>

definition choice :: "'a list \<Rightarrow> rng \<Rightarrow> error + ('a \<times> rng)" where
  "choice seq g =
     (if seq = [] then Inl IndexError
      else (case randbelow (length seq) g of (j, g') \<Rightarrow> Inr (seq ! j, g')))"

section \<open>Formatting\<close>

text \<open>Decimal formatting of the f-strings: \<^verbatim>\<open>f"{n}"\<close> and the zero-padded \<^verbatim>\<open>f"{i:03d}"\<close>.\<close>

function str_nat :: "nat \<Rightarrow> string" where
  "str_nat n =
     (if n < 10 then [''0123456789'' ! n]
      else str_nat (n div 10) @ [''0123456789'' ! (n mod 10)])"
  by pat_completeness auto
termination
  by (relation "measure id") auto

declare str_nat.simps [simp del]

definition str_int :: "int \<Rightarrow> string" where
  "str_int i = (if i < 0 then ''-'' @ str_nat (nat (- i)) else str_nat (nat i))"

definition str_03d :: "nat \<Rightarrow> string" where
  "str_03d i = replicate (3 - length (str_nat i)) (CHR ''0'') @ str_nat i"

section \<open>The Attribute Synthesizer (\<^verbatim>\<open>preprocess_data.py\<close>)\<close>

definition SHARE_RATE :: real where "SHARE_RATE = 24 / 100"
definition MIN_GROUP :: int where "MIN_GROUP = 2"
definition MAX_GROUP :: int where "MAX_GROUP = 6"
definition MERCHANT_RATE :: real where "MERCHANT_RATE = 16 / 100"
definition LOCATION_COUNT :: nat where "LOCATION_COUNT = 50"
definition PHONE_SHARE_RATE :: real where "PHONE_SHARE_RATE = 30 / 100"
definition RANDOM_SEED :: int where "RANDOM_SEED = 28"

text \<open>
  A row of the data frame \<open>out\<close>. The six core columns come from
  \<^verbatim>\<open>build_core_fields\<close>; the five synthesized columns are absent (\<open>None\<close>) until
  their stage assigns them.
\<close>

record row =
  transaction_id :: string
  sender_id :: string
  receiver_id :: string
  amount :: real
  timestamp :: string
  label :: int
  sender_device_id :: "string option"
  receiver_type :: "string option"
  sender_location :: "string option"
  sender_phone :: "string option"
  sender_email :: "string option"

text \<open>\<^verbatim>\<open>Series.unique().tolist()\<close>: the distinct values in order of first appearance.\<close>

fun unique :: "'a list \<Rightarrow> 'a list" where
  "unique [] = []"
| "unique (x # xs) = x # unique (filter (\<lambda>y. y \<noteq> x) xs)"

text \<open>
  A dict comprehension \<^verbatim>\<open>{s: gen() for s in senders}\<close>: one draw per key, in order.
\<close>

fun dict_comprehension ::
  "(rng \<Rightarrow> 'v \<times> rng) \<Rightarrow> 'k list \<Rightarrow> ('k \<rightharpoonup> 'v) \<Rightarrow> rng \<Rightarrow> ('k \<rightharpoonup> 'v) \<times> rng" where
  "dict_comprehension gen [] m g = (m, g)"
| "dict_comprehension gen (s # ss) m g =
     (case gen g of (v, g') \<Rightarrow> dict_comprehension gen ss (m(s \<mapsto> v)) g')"

definition device_value :: "rng \<Rightarrow> string \<times> rng" where
  "device_value g = (case randint 100000 999999 g of (n, g') \<Rightarrow> (''D'' @ str_int n, g'))"

definition phone_value :: "rng \<Rightarrow> string \<times> rng" where
  "phone_value g = (case randint 100000 999999 g of (n, g') \<Rightarrow> (''P'' @ str_int n, g'))"

definition email_value :: "rng \<Rightarrow> string \<times> rng" where
  "email_value g =
     (case randint 1000 9999 g of (n, g') \<Rightarrow> (''user'' @ str_int n @ ''@mail.com'', g'))"

definition fraud_email_value :: "rng \<Rightarrow> string \<times> rng" where
  "fraud_email_value g =
     (case randint 1000 9999 g of (n, g') \<Rightarrow> (''fraud'' @ str_int n @ ''@mail.com'', g'))"

text \<open>The slice \<^verbatim>\<open>xs[i:i+k]\<close> and the loop \<^verbatim>\<open>for s in group: d[s] = v\<close>.\<close>

definition slice :: "'a list \<Rightarrow> nat \<Rightarrow> nat \<Rightarrow> 'a list" where
  "slice xs i k = take k (drop i xs)"

fun assign_all :: "'k list \<Rightarrow> 'v \<Rightarrow> ('k \<rightharpoonup> 'v) \<Rightarrow> ('k \<rightharpoonup> 'v)" where
  "assign_all [] v m = m"
| "assign_all (s # ss) v m = assign_all ss v (m(s \<mapsto> v))"

text \<open>
  The sharing walk of \<^verbatim>\<open>assign_devices\<close> (the \<^verbatim>\<open>while i < len(shuffled)\<close> loop).
  The state is the cursor, the dict and the generator. The list \<open>groups\<close> is a trace
  the source does not keep: it records every slice that was given a shared value, so
  that properties of the groups can be stated.
\<close>

function device_walk ::
  "string list \<Rightarrow> nat \<Rightarrow> (string \<rightharpoonup> string) \<Rightarrow> string list list \<Rightarrow> rng
     \<Rightarrow> (string \<rightharpoonup> string) \<times> string list list \<times> rng" where
  "device_walk shuffled i device_for_sender groups g =
     (if i < length shuffled then
        (case random_unit g of (u, g1) \<Rightarrow>
           if u < SHARE_RATE then
             (case randint MIN_GROUP MAX_GROUP g1 of (k, g2) \<Rightarrow>
                if length (slice shuffled i (nat k)) < 2 then (device_for_sender, groups, g2)
                else
                  (case device_value g2 of (shared_id, g3) \<Rightarrow>
                     device_walk shuffled (i + nat k)
                       (assign_all (slice shuffled i (nat k)) shared_id device_for_sender)
                       (groups @ [slice shuffled i (nat k)]) g3))
           else device_walk shuffled (i + 1) device_for_sender groups g1)
      else (device_for_sender, groups, g))"
  by pat_completeness auto
termination
  by (relation "measure (\<lambda>(shuffled, i, _). length shuffled - i)")
     (auto simp: randint_def MIN_GROUP_def MAX_GROUP_def)

declare device_walk.simps [simp del]

text \<open>
  The body of \<^verbatim>\<open>assign_devices\<close> up to the final dict: seed, enumerate, initialise,
  shuffle, walk. It returns the dict, the trace of groups and the generator.
\<close>

definition device_dict ::
  "(int \<Rightarrow> rng) \<Rightarrow> row list \<Rightarrow> (string \<rightharpoonup> string) \<times> string list list \<times> rng" where
  "device_dict sd out =
     (let g = sd RANDOM_SEED;
          senders = unique (map sender_id out)
      in case dict_comprehension device_value senders Map.empty g of
           (device_for_sender, g1) \<Rightarrow>
             (case shuffle senders g1 of
                (shuffled, g2) \<Rightarrow> device_walk shuffled 0 device_for_sender [] g2))"

text \<open>
  \<^verbatim>\<open>Series.map(dict)\<close>: a key the dict lacks maps to NaN (\<open>None\<close>). The generator
  state \<open>g0\<close> the function is entered with is the module's global state; the function
  reseeds and so never reads it.
\<close>

definition assign_devices :: "(int \<Rightarrow> rng) \<Rightarrow> row list \<Rightarrow> rng \<Rightarrow> row list \<times> rng" where
  "assign_devices sd out g0 =
     (case device_dict sd out of
        (device_for_sender, groups, g3) \<Rightarrow>
          (map (\<lambda>r. r\<lparr>sender_device_id := device_for_sender (sender_id r)\<rparr>) out, g3))"

text \<open>
  \<^verbatim>\<open>assign_merchants\<close>: \<^verbatim>\<open>m = int(len(receivers) * MERCHANT_RATE)\<close> truncates, and
  \<^verbatim>\<open>random.sample(receivers, m if m > 0 else 1)\<close> raises on an empty universe.
\<close>

definition assign_merchants ::
  "(int \<Rightarrow> rng) \<Rightarrow> row list \<Rightarrow> rng \<Rightarrow> error + (row list \<times> rng)" where
  "assign_merchants sd out g0 =
     (let receivers = unique (map receiver_id out);
          g = sd RANDOM_SEED;
          m = \<lfloor>real (length receivers) * MERCHANT_RATE\<rfloor>
      in case sample receivers (if m > 0 then m else 1) g of
           Inl e \<Rightarrow> Inl e
         | Inr (merchants, g1) \<Rightarrow>
             Inr (map (\<lambda>r. r\<lparr>receiver_type :=
                        Some (if receiver_id r \<in> set merchants then ''merchant'' else ''user'')\<rparr>)
                    out,
                  g1))"

text \<open>
  The sharing walk of \<^verbatim>\<open>assign_locations_and_contacts\<close>. Unlike the device walk it
  has no \<^verbatim>\<open>if len(group) < 2: break\<close>. The inner loop assigns phone and email of each
  member in turn, which is the two \<open>assign_all\<close> below. \<open>groups\<close> is again a trace.
\<close>

function contact_walk ::
  "string list \<Rightarrow> nat \<Rightarrow> (string \<rightharpoonup> string) \<Rightarrow> (string \<rightharpoonup> string) \<Rightarrow> string list list \<Rightarrow> rng
     \<Rightarrow> (string \<rightharpoonup> string) \<times> (string \<rightharpoonup> string) \<times> string list list \<times> rng" where
  "contact_walk shuffled i phone_for_sender email_for_sender groups g =
     (if i < length shuffled then
        (case random_unit g of (u, g1) \<Rightarrow>
           if u < PHONE_SHARE_RATE then
             (case randint 2 5 g1 of (k, g2) \<Rightarrow>
                (case phone_value g2 of (shared_phone, g3) \<Rightarrow>
                   (case fraud_email_value g3 of (shared_email, g4) \<Rightarrow>
                      contact_walk shuffled (i + nat k)
                        (assign_all (slice shuffled i (nat k)) shared_phone phone_for_sender)
                        (assign_all (slice shuffled i (nat k)) shared_email email_for_sender)
                        (groups @ [slice shuffled i (nat k)]) g4)))
           else contact_walk shuffled (i + 1) phone_for_sender email_for_sender groups g1)
      else (phone_for_sender, email_for_sender, groups, g))"
  by pat_completeness auto
termination
  by (relation "measure (\<lambda>(shuffled, i, _). length shuffled - i)")
     (auto simp: randint_def)

declare contact_walk.simps [simp del]

definition locations :: "string list" where
  "locations = map (\<lambda>i. ''L'' @ str_03d i) [1 ..< LOCATION_COUNT + 1]"

text \<open>\<^verbatim>\<open>random.choice\<close> on a non-empty sequence, as a generator of dict values.\<close>

definition choice_value :: "'a list \<Rightarrow> rng \<Rightarrow> 'a \<times> rng" where
  "choice_value seq g = (case randbelow (length seq) g of (j, g') \<Rightarrow> (seq ! j, g'))"

text \<open>
  The body of \<^verbatim>\<open>assign_locations_and_contacts\<close> up to the final dicts. The only
  raise is \<^verbatim>\<open>random.choice\<close> on an empty location list.
\<close>

definition contact_dicts ::
  "(int \<Rightarrow> rng) \<Rightarrow> row list \<Rightarrow>
     error + ((string \<rightharpoonup> string) \<times> (string \<rightharpoonup> string) \<times> (string \<rightharpoonup> string) \<times> string list list \<times> rng)"
  where
  "contact_dicts sd out =
     (let g = sd RANDOM_SEED;
          senders = unique (map sender_id out)
      in if locations = [] \<and> senders \<noteq> [] then Inl IndexError
         else
           (case dict_comprehension (choice_value locations) senders Map.empty g of
              (loc_map, g1) \<Rightarrow>
                (case dict_comprehension phone_value senders Map.empty g1 of
                   (phone_for_sender, g2) \<Rightarrow>
                     (case dict_comprehension email_value senders Map.empty g2 of
                        (email_for_sender, g3) \<Rightarrow>
                          (case shuffle senders g3 of
                             (shuffled, g4) \<Rightarrow>
                               (case contact_walk shuffled 0 phone_for_sender email_for_sender [] g4 of
                                  (phone', email', groups, g5) \<Rightarrow>
                                    Inr (loc_map, phone', email', groups, g5)))))))"

definition assign_locations_and_contacts ::
  "(int \<Rightarrow> rng) \<Rightarrow> row list \<Rightarrow> rng \<Rightarrow> error + (row list \<times> rng)" where
  "assign_locations_and_contacts sd out g0 =
     (case contact_dicts sd out of
        Inl e \<Rightarrow> Inl e
      | Inr (loc_map, phone_for_sender, email_for_sender, groups, g5) \<Rightarrow>
          Inr (map (\<lambda>r. r\<lparr>sender_location := loc_map (sender_id r),
                          sender_phone := phone_for_sender (sender_id r),
                          sender_email := email_for_sender (sender_id r)\<rparr>) out,
               g5))"

text \<open>
  \<^verbatim>\<open>main\<close> from the cleaned frame on: the three stages in order, each entered with
  the generator state the previous one left. The column selection \<^verbatim>\<open>final = out[[...]]\<close>
  keeps all eleven columns of \<open>row\<close>.
\<close>

definition main_synthesis :: "(int \<Rightarrow> rng) \<Rightarrow> row list \<Rightarrow> rng \<Rightarrow> error + (row list \<times> rng)" where
  "main_synthesis sd out g0 =
     (case assign_devices sd out g0 of
        (out1, g1) \<Rightarrow>
          (case assign_merchants sd out1 g1 of
             Inl e \<Rightarrow> Inl e
           | Inr (out2, g2) \<Rightarrow> assign_locations_and_contacts sd out2 g2))"

text \<open>A cleaned row before synthesis, for examples.\<close>

definition core_row :: "string \<Rightarrow> string \<Rightarrow> string \<Rightarrow> row" where
  "core_row tid s r =
     \<lparr>transaction_id = tid, sender_id = s, receiver_id = r, amount = 1,
      timestamp = ''2025-01-01T01:00:00'', label = 0, sender_device_id = None,
      receiver_type = None, sender_location = None, sender_phone = None,
      sender_email = None\<rparr>"

text \<open>
  Observers of a run, used to state the claims: the groups the two sharing walks formed,
  and the receivers a frame marks as merchants.
\<close>

definition device_groups :: "(int \<Rightarrow> rng) \<Rightarrow> row list \<Rightarrow> string list list" where
  "device_groups sd out = (case device_dict sd out of (device_for_sender, groups, g) \<Rightarrow> groups)"

definition contact_groups :: "(int \<Rightarrow> rng) \<Rightarrow> row list \<Rightarrow> string list list" where
  "contact_groups sd out =
     (case contact_dicts sd out of
        Inl e \<Rightarrow> []
      | Inr (loc_map, phone, email, groups, g) \<Rightarrow> groups)"

definition merchant_set :: "row list \<Rightarrow> string set" where
  "merchant_set out =
     set (map receiver_id (filter (\<lambda>r. receiver_type r = Some ''merchant'') out))"

text \<open>
  The sample size in the spec's words (``round(receiver_count * merchant_rate), minimum
  1''), to be compared with the size \<open>assign_merchants\<close> computes.
\<close>

definition spec_merchant_count :: "nat \<Rightarrow> int" where
  "spec_merchant_count n = max 1 (round (real n * MERCHANT_RATE))"

text \<open>The values \<^verbatim>\<open>f"user{random.randint(1000,9999)}@mail.com"\<close> can take.\<close>

definition initial_emails :: "string set" where
  "initial_emails = (\<lambda>n. ''user'' @ str_int n @ ''@mail.com'') ` {1000 .. 9999}"

text \<open>
  The invariant of the contact walk at cursor \<open>i\<close>: the groups formed so far are pairwise
  disjoint, lie before the cursor, and each has one phone and one email value.
\<close>

definition walk_inv ::
  "string list \<Rightarrow> nat \<Rightarrow> (string \<rightharpoonup> string) \<Rightarrow> (string \<rightharpoonup> string) \<Rightarrow> string list list \<Rightarrow> bool" where
  "walk_inv shuffled i phone email groups \<longleftrightarrow>
     distinct (concat groups) \<and>
     (\<forall>grp\<in>set groups. set grp \<subseteq> set (take i shuffled) \<and>
        (\<exists>p e. \<forall>s\<in>set grp. phone s = Some p \<and> email s = Some e))"

text \<open>
  For examples: the seeding under which every raw draw is 0, a frame of ten rows with ten
  distinct receivers, and that frame with the first receiver marked as the one merchant.
\<close>

definition all_zero :: "int \<Rightarrow> rng" where
  "all_zero seed = sconst 0"

definition ten_rows :: "row list" where
  "ten_rows = map (core_row ''T'' ''s'')
     [''r0'', ''r1'', ''r2'', ''r3'', ''r4'', ''r5'', ''r6'', ''r7'', ''r8'', ''r9'']"

definition ten_rows_marked :: "row list" where
  "ten_rows_marked =
     map (\<lambda>r. r\<lparr>receiver_type :=
                 Some (if receiver_id r = ''r0'' then ''merchant'' else ''user'')\<rparr>) ten_rows"

section \<open>The Graph Ingestor (\<^verbatim>\<open>load_to_neo4j.py\<close>)\<close>

text \<open>
  The program is the Cypher statement of \<^verbatim>\<open>load_batch\<close>. The graph store is modelled
  as far as the statement uses it: nodes with a label set and an \<open>id\<close> property,
  relationships with a type, end points and the transaction properties. A node or
  relationship is identified by its position in the store (its internal id). Cypher's
  \<open>null\<close> is \<open>None\<close>.
\<close>

datatype node_label = User | Merchant | Device | Location | Phone | Email

datatype rel_type = USES_DEVICE | LOCATED_IN | HAS_PHONE | HAS_EMAIL | TRANSACTS_WITH

record node =
  labels :: "node_label set"
  node_id :: string

record rel =
  src :: nat
  dst :: nat
  rtype :: rel_type
  txid :: "string option"
  rel_amount :: "real option"
  rel_timestamp :: "string option"
  rel_label :: "int option"

record graph =
  nodes :: "node list"
  rels :: "rel list"

datatype db_error = ConstraintValidationFailed | NullPropertyValue

text \<open>A clause is run for every row of the table in order; a failure aborts the statement.\<close>

definition then_do :: "db_error + 'a \<Rightarrow> ('a \<Rightarrow> db_error + 'b) \<Rightarrow> db_error + 'b" where
  "then_do r f = (case r of Inl e \<Rightarrow> Inl e | Inr a \<Rightarrow> f a)"

text \<open>
  A reading clause with updates (\<^verbatim>\<open>MERGE\<close>): each row is processed against the graph
  the previous rows left, and yields one output row per entity it binds.
\<close>

fun merge_rows ::
  "('b \<Rightarrow> graph \<Rightarrow> db_error + graph \<times> nat list) \<Rightarrow> graph \<Rightarrow> 'b list
     \<Rightarrow> db_error + graph \<times> ('b \<times> nat) list" where
  "merge_rows f g [] = Inr (g, [])"
| "merge_rows f g (b # bs) =
     (case f b g of
        Inl e \<Rightarrow> Inl e
      | Inr (g1, xs) \<Rightarrow>
          (case merge_rows f g1 bs of
             Inl e \<Rightarrow> Inl e
           | Inr (g2, out) \<Rightarrow> Inr (g2, map (Pair b) xs @ out)))"

text \<open>An updating clause (\<^verbatim>\<open>FOREACH\<close>): the table is unchanged.\<close>

fun foreach_rows ::
  "('b \<Rightarrow> graph \<Rightarrow> db_error + graph) \<Rightarrow> graph \<Rightarrow> 'b list \<Rightarrow> db_error + graph" where
  "foreach_rows f g [] = Inr g"
| "foreach_rows f g (b # bs) =
     (case f b g of Inl e \<Rightarrow> Inl e | Inr g1 \<Rightarrow> foreach_rows f g1 bs)"

text \<open>Matching a node pattern \<^verbatim>\<open>(:L1:L2 {id: i})\<close> and creating a node.\<close>

definition match_nodes :: "node_label set \<Rightarrow> string \<Rightarrow> graph \<Rightarrow> nat list" where
  "match_nodes ls i g =
     filter (\<lambda>n. ls \<subseteq> labels (nodes g ! n) \<and> node_id (nodes g ! n) = i)
       [0 ..< length (nodes g)]"

definition create_node :: "node_label set \<Rightarrow> string \<Rightarrow> graph \<Rightarrow> graph \<times> nat" where
  "create_node ls i g =
     (g\<lparr>nodes := nodes g @ [\<lparr>labels = ls, node_id = i\<rparr>]\<rparr>, length (nodes g))"

text \<open>
  \<^verbatim>\<open>setup_constraints\<close> makes \<open>id\<close> unique per label. Adding label \<open>l\<close> to node \<open>n\<close>
  fails when another node with label \<open>l\<close> has the same \<open>id\<close>.
\<close>

definition conflict :: "graph \<Rightarrow> nat \<Rightarrow> node_label \<Rightarrow> bool" where
  "conflict g n l =
     list_ex (\<lambda>m. m \<noteq> n \<and> l \<in> labels (nodes g ! m) \<and> node_id (nodes g ! m) = node_id (nodes g ! n))
       [0 ..< length (nodes g)]"

definition set_label :: "nat \<Rightarrow> node_label \<Rightarrow> graph \<Rightarrow> db_error + graph" where
  "set_label n l g =
     (if l \<in> labels (nodes g ! n) then Inr g
      else if conflict g n l then Inl ConstraintValidationFailed
      else Inr (g\<lparr>nodes := (nodes g)[n := (nodes g ! n)\<lparr>labels := insert l (labels (nodes g ! n))\<rparr>]\<rparr>))"

definition remove_label :: "nat \<Rightarrow> node_label \<Rightarrow> graph \<Rightarrow> graph" where
  "remove_label n l g =
     g\<lparr>nodes := (nodes g)[n := (nodes g ! n)\<lparr>labels := labels (nodes g ! n) - {l}\<rparr>]\<rparr>"

text \<open>
  \<^verbatim>\<open>MERGE (x:L {id: v})\<close>: all matches, or one new node when there is none. A \<open>null\<close>
  property value is an error. A new node has a label no node with that \<open>id\<close> has, so
  the uniqueness constraint cannot fail on it.
\<close>

definition merge_node ::
  "node_label \<Rightarrow> string option \<Rightarrow> graph \<Rightarrow> db_error + graph \<times> nat list" where
  "merge_node l v g =
     (case v of
        None \<Rightarrow> Inl NullPropertyValue
      | Some i \<Rightarrow>
          (case match_nodes {l} i g of
             [] \<Rightarrow> (case create_node {l} i g of (g1, n) \<Rightarrow> Inr (g1, [n]))
           | m # ms \<Rightarrow> Inr (g, m # ms)))"

text \<open>\<^verbatim>\<open>MERGE (t {id: r.receiver_id}) ON CREATE SET t:User\<close>: the pattern has no label.\<close>

definition merge_receiver :: "string \<Rightarrow> graph \<Rightarrow> db_error + graph \<times> nat list" where
  "merge_receiver i g =
     (case match_nodes {} i g of
        [] \<Rightarrow>
          (case create_node {} i g of
             (g1, n) \<Rightarrow> then_do (set_label n User g1) (\<lambda>g2. Inr (g2, [n])))
      | m # ms \<Rightarrow> Inr (g, m # ms))"

text \<open>
  \<^verbatim>\<open>FOREACH (_ IN CASE WHEN r.receiver_type = 'merchant' THEN [1] ELSE [] END |
  SET t:Merchant REMOVE t:User)\<close>.
\<close>

definition relabel_merchant :: "(row \<times> nat) \<times> nat \<Rightarrow> graph \<Rightarrow> db_error + graph" where
  "relabel_merchant b g =
     (case b of
        ((r, s), t) \<Rightarrow>
          if receiver_type r = Some ''merchant''
          then then_do (set_label t Merchant g) (\<lambda>g1. Inr (remove_label t User g1))
          else Inr g)"

text \<open>
  \<^verbatim>\<open>MERGE (s)-[:T]->(d)\<close> between bound nodes, and
  \<^verbatim>\<open>MERGE (s)-[x:TRANSACTS_WITH {txid: v}]->(t) ON CREATE SET ...\<close>.
\<close>

definition match_rels :: "nat \<Rightarrow> rel_type \<Rightarrow> nat \<Rightarrow> string option \<Rightarrow> graph \<Rightarrow> nat list" where
  "match_rels s ty d tx g =
     filter (\<lambda>x. src (rels g ! x) = s \<and> rtype (rels g ! x) = ty \<and> dst (rels g ! x) = d \<and>
                 (tx = None \<or> txid (rels g ! x) = tx))
       [0 ..< length (rels g)]"

definition create_rel :: "nat \<Rightarrow> rel_type \<Rightarrow> nat \<Rightarrow> string option \<Rightarrow> graph \<Rightarrow> graph \<times> nat" where
  "create_rel s ty d tx g =
     (g\<lparr>rels := rels g @ [\<lparr>src = s, dst = d, rtype = ty, txid = tx, rel_amount = None,
                             rel_timestamp = None, rel_label = None\<rparr>]\<rparr>,
      length (rels g))"

definition merge_rel :: "nat \<Rightarrow> rel_type \<Rightarrow> nat \<Rightarrow> graph \<Rightarrow> db_error + graph \<times> nat list" where
  "merge_rel s ty d g =
     (case match_rels s ty d None g of
        [] \<Rightarrow> (case create_rel s ty d None g of (g1, x) \<Rightarrow> Inr (g1, [x]))
      | m # ms \<Rightarrow> Inr (g, m # ms))"

definition set_transaction_properties :: "nat \<Rightarrow> row \<Rightarrow> graph \<Rightarrow> graph" where
  "set_transaction_properties x r g =
     g\<lparr>rels := (rels g)[x := (rels g ! x)\<lparr>rel_amount := Some (amount r),
                                           rel_timestamp := Some (timestamp r),
                                           rel_label := Some (label r)\<rparr>]\<rparr>"

definition merge_transaction :: "(row \<times> nat) \<times> nat \<Rightarrow> graph \<Rightarrow> db_error + graph \<times> nat list" where
  "merge_transaction b g =
     (case b of
        ((r, s), t) \<Rightarrow>
          (case match_rels s TRANSACTS_WITH t (Some (transaction_id r)) g of
             [] \<Rightarrow>
               (case create_rel s TRANSACTS_WITH t (Some (transaction_id r)) g of
                  (g1, x) \<Rightarrow> Inr (set_transaction_properties x r g1, [x]))
           | m # ms \<Rightarrow> Inr (g, m # ms)))"

text \<open>
  A resource and its edge, e.g. \<^verbatim>\<open>MERGE (d:Device {id: r.sender_device_id})\<close> followed by
  \<^verbatim>\<open>MERGE (s)-[:USES_DEVICE]->(d)\<close>. The variables the two clauses bind are not used
  again, so the table that goes on keeps only \<open>r\<close>, \<open>s\<close> and \<open>t\<close> (one row per match).
\<close>

definition merge_resource ::
  "node_label \<Rightarrow> rel_type \<Rightarrow> (row \<Rightarrow> string option) \<Rightarrow> graph \<Rightarrow> ((row \<times> nat) \<times> nat) list
     \<Rightarrow> db_error + graph \<times> ((row \<times> nat) \<times> nat) list" where
  "merge_resource l ty col g tab =
     then_do (merge_rows (\<lambda>b. case b of ((r, s), t) \<Rightarrow> merge_node l (col r)) g tab)
       (\<lambda>(g1, tab1).
          then_do (merge_rows (\<lambda>b. case b of (((r, s), t), d) \<Rightarrow> merge_rel s ty d) g1 tab1)
            (\<lambda>(g2, tab2). Inr (g2, map (fst \<circ> fst) tab2)))"

text \<open>
  \<^verbatim>\<open>load_batch\<close>: \<^verbatim>\<open>UNWIND $rows AS r\<close>, then the clauses in order. Each clause runs over
  the whole table before the next one starts.
\<close>

definition load_batch :: "graph \<Rightarrow> row list \<Rightarrow> db_error + graph" where
  "load_batch g rows =
     then_do (merge_rows (\<lambda>r. merge_node User (Some (sender_id r))) g rows)
       (\<lambda>(g1, tab1).
     then_do (merge_rows (\<lambda>b. case b of (r, s) \<Rightarrow> merge_receiver (receiver_id r)) g1 tab1)
       (\<lambda>(g2, tab2).
     then_do (foreach_rows relabel_merchant g2 tab2)
       (\<lambda>g3.
     then_do (merge_resource Device USES_DEVICE sender_device_id g3 tab2)
       (\<lambda>(g4, tab4).
     then_do (merge_resource Location LOCATED_IN sender_location g4 tab4)
       (\<lambda>(g5, tab5).
     then_do (merge_resource Phone HAS_PHONE sender_phone g5 tab5)
       (\<lambda>(g6, tab6).
     then_do (merge_resource Email HAS_EMAIL sender_email g6 tab6)
       (\<lambda>(g7, tab7).
     then_do (merge_rows merge_transaction g7 tab7)
       (\<lambda>(g8, tab8). Inr g8))))))))"

text \<open>
  \<^verbatim>\<open>session.execute_write(load_batch, rows)\<close>: the transaction commits, or it is rolled
  back and the exception is raised.
\<close>

definition execute_write :: "graph \<Rightarrow> row list \<Rightarrow> graph \<times> db_error option" where
  "execute_write g rows =
     (case load_batch g rows of Inl e \<Rightarrow> (g, Some e) | Inr g' \<Rightarrow> (g', None))"

text \<open>An enriched row, for examples.\<close>

definition enriched_row ::
  "string \<Rightarrow> string \<Rightarrow> string \<Rightarrow> string \<Rightarrow> real \<Rightarrow> row" where
  "enriched_row tid s r ty a =
     \<lparr>transaction_id = tid, sender_id = s, receiver_id = r, amount = a,
      timestamp = ''2025-01-01T01:00:00'', label = 0, sender_device_id = Some ''D100000'',
      receiver_type = Some ty, sender_location = Some ''L001'',
      sender_phone = Some ''P100000'', sender_email = Some ''user1000@mail.com''\<rparr>"

definition empty_graph :: graph where
  "empty_graph = \<lparr>nodes = [], rels = []\<rparr>"

text \<open>
  What a batch may do to a graph it starts from: nodes and relationships are only added;
  an existing node keeps its \<open>id\<close>, gains no \<open>User\<close> label and loses no \<open>Merchant\<close>
  label; an existing relationship is unchanged.
\<close>

definition extends :: "graph \<Rightarrow> graph \<Rightarrow> bool" where
  "extends g g' \<longleftrightarrow>
     length (nodes g) \<le> length (nodes g') \<and>
     (\<forall>n<length (nodes g).
        node_id (nodes g' ! n) = node_id (nodes g ! n) \<and>
        (User \<in> labels (nodes g' ! n) \<longrightarrow> User \<in> labels (nodes g ! n)) \<and>
        (Merchant \<in> labels (nodes g ! n) \<longrightarrow> Merchant \<in> labels (nodes g' ! n))) \<and>
     take (length (rels g)) (rels g') = rels g"

text \<open>
  A batch of two transactions in which \<open>B\<close> receives as a merchant and also sends, and the
  graph that ingesting it into the empty graph commits.
\<close>

definition two_rows :: "row list" where
  "two_rows = [enriched_row ''T0000000'' ''A'' ''B'' ''merchant'' 10,
               enriched_row ''T0000001'' ''B'' ''C'' ''user'' 20]"

definition resource_rel :: "nat \<Rightarrow> rel_type \<Rightarrow> nat \<Rightarrow> rel" where
  "resource_rel s ty d =
     \<lparr>src = s, dst = d, rtype = ty, txid = None, rel_amount = None, rel_timestamp = None,
      rel_label = None\<rparr>"

definition transaction_rel :: "nat \<Rightarrow> nat \<Rightarrow> string \<Rightarrow> real \<Rightarrow> rel" where
  "transaction_rel s t tid a =
     \<lparr>src = s, dst = t, rtype = TRANSACTS_WITH, txid = Some tid, rel_amount = Some a,
      rel_timestamp = Some ''2025-01-01T01:00:00'', rel_label = Some 0\<rparr>"

definition loaded_once :: graph where
  "loaded_once =
     \<lparr>nodes =
        [\<lparr>labels = {User}, node_id = ''A''\<rparr>,
         \<lparr>labels = {Merchant}, node_id = ''B''\<rparr>,
         \<lparr>labels = {User}, node_id = ''C''\<rparr>,
         \<lparr>labels = {Device}, node_id = ''D100000''\<rparr>,
         \<lparr>labels = {Location}, node_id = ''L001''\<rparr>,
         \<lparr>labels = {Phone}, node_id = ''P100000''\<rparr>,
         \<lparr>labels = {Email}, node_id = ''user1000@mail.com''\<rparr>],
      rels =
        [resource_rel 0 USES_DEVICE 3, resource_rel 1 USES_DEVICE 3,
         resource_rel 0 LOCATED_IN 4, resource_rel 1 LOCATED_IN 4,
         resource_rel 0 HAS_PHONE 5, resource_rel 1 HAS_PHONE 5,
         resource_rel 0 HAS_EMAIL 6, resource_rel 1 HAS_EMAIL 6,
         transaction_rel 0 1 ''T0000000'' 10, transaction_rel 1 2 ''T0000001'' 20]\<rparr>"

section \<open>The Risk Scorer (\<^verbatim>\<open>run_algorithms.py\<close>)\<close>

text \<open>
  The program is the Cypher of steps 4 and 5. A \<open>User\<close> node is modelled with the
  properties the statements read and write; a property the node does not have is
  \<open>None\<close> (Cypher's \<open>null\<close>), and setting a property to \<open>null\<close> removes it. PageRank and
  degree are floats, read as reals.
\<close>

record user_node =
  uid :: string
  pr :: "real option"
  coUsers :: "int option"
  triangles :: "int option"
  degree :: "real option"
  community :: "int option"
  suspicious :: "bool option"
  highRisk :: "bool option"

text \<open>Cypher's three-valued \<open>OR\<close>, \<open>AND\<close>, \<open>=\<close>, \<open>>\<close>, \<open>+\<close> and \<open>coalesce\<close>.\<close>

fun or3 :: "bool option \<Rightarrow> bool option \<Rightarrow> bool option" where
  "or3 (Some True) b = Some True"
| "or3 a (Some True) = Some True"
| "or3 (Some False) (Some False) = Some False"
| "or3 a b = None"

fun and3 :: "bool option \<Rightarrow> bool option \<Rightarrow> bool option" where
  "and3 (Some False) b = Some False"
| "and3 a (Some False) = Some False"
| "and3 (Some True) (Some True) = Some True"
| "and3 a b = None"

fun eq3 :: "'a option \<Rightarrow> 'a option \<Rightarrow> bool option" where
  "eq3 (Some a) (Some b) = Some (a = b)"
| "eq3 a b = None"

fun gt3 :: "real option \<Rightarrow> real option \<Rightarrow> bool option" where
  "gt3 (Some a) (Some b) = Some (a > b)"
| "gt3 a b = None"

fun add3 :: "real option \<Rightarrow> real option \<Rightarrow> real option" where
  "add3 (Some a) (Some b) = Some (a + b)"
| "add3 a b = None"

fun coalesce :: "'a option \<Rightarrow> 'a \<Rightarrow> 'a" where
  "coalesce (Some a) d = a"
| "coalesce None d = d"

text \<open>
  The aggregates \<^verbatim>\<open>avg\<close> and \<^verbatim>\<open>stDev\<close> skip \<open>null\<close>. \<^verbatim>\<open>avg\<close> of no value is \<open>null\<close>;
  \<^verbatim>\<open>stDev\<close> is the sample standard deviation (denominator \<open>N - 1\<close>) and 0 for fewer than
  two values.
\<close>

fun non_null :: "'a option list \<Rightarrow> 'a list" where
  "non_null [] = []"
| "non_null (None # vs) = non_null vs"
| "non_null (Some x # vs) = x # non_null vs"

definition avg :: "real option list \<Rightarrow> real option" where
  "avg vs =
     (let xs = non_null vs
      in if xs = [] then None else Some (sum_list xs / real (length xs)))"

definition stDev :: "real option list \<Rightarrow> real" where
  "stDev vs =
     (let xs = non_null vs; m = sum_list xs / real (length xs)
      in if length xs < 2 then 0
         else sqrt (sum_list (map (\<lambda>x. (x - m)\<^sup>2) xs) / real (length xs - 1)))"

text \<open>
  Step 4, first statement: \<^verbatim>\<open>SET u.suspicious = (u.pr > meanPR + 3*sdPR) OR
  (coalesce(u.coUsers,0) >= 2) OR (coalesce(u.triangles,0) >= 2)\<close> on every user.
\<close>

definition suspicious_rule :: "real option \<Rightarrow> real \<Rightarrow> user_node \<Rightarrow> bool option" where
  "suspicious_rule meanPR sdPR u =
     or3 (or3 (gt3 (pr u) (add3 meanPR (Some (3 * sdPR))))
              (Some (coalesce (coUsers u) 0 \<ge> 2)))
         (Some (coalesce (triangles u) 0 \<ge> 2))"

definition set_suspicious :: "user_node list \<Rightarrow> user_node list" where
  "set_suspicious us =
     (let meanPR = avg (map pr us); sdPR = stDev (map pr us)
      in map (\<lambda>u. u\<lparr>suspicious := suspicious_rule meanPR sdPR u\<rparr>) us)"

text \<open>
  Step 4, second statement: \<^verbatim>\<open>WHERE u.suspicious = true AND (coalesce(u.coUsers,0) >= 4
  OR u.pr > meanPR + 2*sdPR) SET u.highRisk = true\<close>. A user the \<^verbatim>\<open>WHERE\<close> drops is not
  written to.
\<close>

definition highRisk_where :: "real option \<Rightarrow> real \<Rightarrow> user_node \<Rightarrow> bool option" where
  "highRisk_where meanPR sdPR u =
     and3 (eq3 (suspicious u) (Some True))
          (or3 (Some (coalesce (coUsers u) 0 \<ge> 4))
               (gt3 (pr u) (add3 meanPR (Some (2 * sdPR)))))"

definition set_highRisk :: "user_node list \<Rightarrow> user_node list" where
  "set_highRisk us =
     (let meanPR = avg (map pr us); sdPR = stDev (map pr us)
      in map (\<lambda>u. if highRisk_where meanPR sdPR u = Some True
                    then u\<lparr>highRisk := Some True\<rparr> else u) us)"

definition apply_rules :: "user_node list \<Rightarrow> user_node list" where
  "apply_rules us = set_highRisk (set_suspicious us)"

text \<open>
  Step 5, the export. \<^verbatim>\<open>round(x, 6)\<close> rounds half away from zero. \<^verbatim>\<open>ORDER BY\<close> sorts by
  the returned columns; \<open>DESC\<close> on a boolean puts \<open>true\<close> first. The order of rows that
  tie on all three keys is the store's choice; here they keep their match order.
\<close>

record risk_row =
  row_user :: string
  row_highRisk :: bool
  row_coUsers :: int
  row_pr :: real
  row_degree :: real
  row_triangles :: int
  row_community :: int

definition round6 :: "real \<Rightarrow> real" where
  "round6 x = sgn x * of_int \<lfloor>\<bar>x\<bar> * 10 ^ 6 + 1 / 2\<rfloor> / 10 ^ 6"

definition flagged :: "user_node \<Rightarrow> bool" where
  "flagged u \<longleftrightarrow>
     or3 (eq3 (suspicious u) (Some True)) (eq3 (highRisk u) (Some True)) = Some True"

definition return_row :: "user_node \<Rightarrow> risk_row" where
  "return_row u =
     \<lparr>row_user = uid u,
      row_highRisk = coalesce (highRisk u) False,
      row_coUsers = coalesce (coUsers u) 0,
      row_pr = round6 (coalesce (pr u) 0),
      row_degree = coalesce (degree u) 0,
      row_triangles = coalesce (triangles u) 0,
      row_community = coalesce (community u) (- 1)\<rparr>"

definition order_key :: "risk_row \<Rightarrow> bool \<times> int \<times> real" where
  "order_key r = (\<not> row_highRisk r, - row_coUsers r, - row_pr r)"

definition risk_export :: "user_node list \<Rightarrow> risk_row list" where
  "risk_export us = take 1000 (sort_key order_key (map return_row (filter flagged us)))"

text \<open>Example users: only the id and what the example needs is set.\<close>

definition plain_user :: "string \<Rightarrow> real \<Rightarrow> user_node" where
  "plain_user i p =
     \<lparr>uid = i, pr = Some p, coUsers = None, triangles = None, degree = None,
      community = None, suspicious = None, highRisk = None\<rparr>"

definition flagged_pair :: "user_node list" where
  "flagged_pair =
     [(plain_user ''u1'' (2 / 10))\<lparr>coUsers := Some 3, suspicious := Some True\<rparr>,
      plain_user ''u2'' (9 / 10),
      (plain_user ''u3'' (1 / 10))\<lparr>coUsers := Some 3, suspicious := Some True,
                                    highRisk := Some True\<rparr>]"

text \<open>
  \<open>ranks_before a b\<close>: \<^verbatim>\<open>ORDER BY highRisk DESC, coUsers DESC, pr DESC\<close> does not put
  row \<open>a\<close> after row \<open>b\<close>. \<open>over_cap\<close> is a population of 1001 flagged users whose
  last-matched user is the only high-risk one.
\<close>

definition ranks_before :: "risk_row \<Rightarrow> risk_row \<Rightarrow> bool" where
  "ranks_before a b \<longleftrightarrow>
     (row_highRisk a \<and> \<not> row_highRisk b) \<or>
     (row_highRisk a = row_highRisk b \<and>
        (row_coUsers b < row_coUsers a \<or>
         (row_coUsers a = row_coUsers b \<and> row_pr b \<le> row_pr a)))"

definition over_cap :: "user_node list" where
  "over_cap =
     replicate 1000 ((plain_user ''low'' (2 / 10))\<lparr>coUsers := Some 3, suspicious := Some True\<rparr>) @
     [(plain_user ''top'' (1 / 10))\<lparr>suspicious := Some True, highRisk := Some True\<rparr>]"

section \<open>Facts about the generator and the list helpers\<close>

lemma unique_set [simp]: "set (unique xs) = set xs"
  by (induction xs rule: unique.induct) auto

lemma unique_distinct [simp]: "distinct (unique xs)"
  by (induction xs rule: unique.induct) auto

lemma assign_all_apply: "assign_all grp v m s = (if s \<in> set grp then Some v else m s)"
  by (induction grp arbitrary: m) auto

lemma swap_mset: "i < length xs \<Longrightarrow> j < length xs \<Longrightarrow> mset (swap i j xs) = mset xs"
  unfolding swap_def by (simp add: mset_swap)

lemma swap_length [simp]: "length (swap i j xs) = length xs"
  by (simp add: swap_def)

lemma shuffle_from_mset:
  "i < length xs \<Longrightarrow> mset (fst (shuffle_from i xs g)) = mset xs"
proof (induction i arbitrary: xs g)
  case 0
  then show ?case by simp
next
  case (Suc i)
  have j: "shd g mod (Suc i + 1) < length xs"
  proof -
    have "shd g mod (Suc i + 1) < Suc i + 1" by simp
    with Suc.prems show ?thesis by linarith
  qed
  show ?case
    using Suc.prems j by (simp add: randbelow_def Suc.IH swap_mset)
qed

lemma shuffle_mset: "mset (fst (shuffle xs g)) = mset xs"
proof (cases xs)
  case Nil
  then show ?thesis by (simp add: shuffle_def)
next
  case (Cons a list)
  then show ?thesis by (simp add: shuffle_def shuffle_from_mset)
qed

lemma shuffle_distinct: "distinct xs \<Longrightarrow> distinct (fst (shuffle xs g))"
  using shuffle_mset[of xs g] by (metis mset_eq_imp_distinct_iff)

lemma shuffle_set: "set (fst (shuffle xs g)) = set xs"
  using shuffle_mset[of xs g] by (metis mset_eq_setD)

lemma slice_set_drop: "set (slice xs i k) \<subseteq> set (drop i xs)"
  by (simp add: slice_def set_take_subset)

lemma take_drop_disjoint: "distinct xs \<Longrightarrow> set (take i xs) \<inter> set (drop i xs) = {}"
  using distinct_append[of "take i xs" "drop i xs"] by simp

lemma slice_set_take: "set (slice xs i k) \<subseteq> set (take (i + k) xs)"
  by (simp add: slice_def take_add)

lemma slice_distinct: "distinct xs \<Longrightarrow> distinct (slice xs i k)"
  by (simp add: slice_def)

lemma walk_inv_skip:
  assumes "walk_inv shuffled i phone email groups"
  shows "walk_inv shuffled (i + 1) phone email groups"
proof -
  have "set (take i shuffled) \<subseteq> set (take (i + 1) shuffled)"
    by (rule set_take_subset_set_take) simp
  with assms show ?thesis unfolding walk_inv_def by blast
qed

lemma walk_inv_group:
  assumes d: "distinct shuffled" and inv: "walk_inv shuffled i phone email groups"
  shows "walk_inv shuffled (i + k)
           (assign_all (slice shuffled i k) p phone)
           (assign_all (slice shuffled i k) e email)
           (groups @ [slice shuffled i k])"
proof -
  let ?grp = "slice shuffled i k"
  have sub: "set (take i shuffled) \<subseteq> set (take (i + k) shuffled)"
    by (rule set_take_subset_set_take) simp
  have disj: "set (take i shuffled) \<inter> set ?grp = {}"
    using take_drop_disjoint[OF d, of i] slice_set_drop[of shuffled i k] by blast
  have old: "\<forall>grp\<in>set groups. set grp \<subseteq> set (take i shuffled)"
    using inv by (simp add: walk_inv_def)
  have "distinct (concat (groups @ [?grp]))"
    using inv old disj slice_distinct[OF d, of i k] by (auto simp: walk_inv_def)
  moreover have "\<forall>grp\<in>set (groups @ [?grp]). set grp \<subseteq> set (take (i + k) shuffled) \<and>
        (\<exists>p' e'. \<forall>s\<in>set grp. assign_all ?grp p phone s = Some p' \<and> assign_all ?grp e email s = Some e')"
  proof
    fix grp assume "grp \<in> set (groups @ [?grp])"
    then consider "grp \<in> set groups" | "grp = ?grp" by auto
    then show "set grp \<subseteq> set (take (i + k) shuffled) \<and>
        (\<exists>p' e'. \<forall>s\<in>set grp. assign_all ?grp p phone s = Some p' \<and> assign_all ?grp e email s = Some e')"
    proof cases
      case 1
      then obtain p' e' where pe: "\<forall>s\<in>set grp. phone s = Some p' \<and> email s = Some e'"
        using inv unfolding walk_inv_def by blast
      have "set grp \<inter> set ?grp = {}" using old 1 disj by blast
      then have "\<forall>s\<in>set grp. assign_all ?grp p phone s = Some p' \<and> assign_all ?grp e email s = Some e'"
        using pe by (auto simp: assign_all_apply)
      then show ?thesis using old 1 sub by blast
    next
      case 2
      then show ?thesis using slice_set_take[of shuffled i k] by (auto simp: assign_all_apply)
    qed
  qed
  ultimately show ?thesis unfolding walk_inv_def by blast
qed

lemma contact_walk_inv:
  "distinct shuffled \<Longrightarrow> walk_inv shuffled i phone email groups \<Longrightarrow>
   contact_walk shuffled i phone email groups g = (phone', email', groups', g') \<Longrightarrow>
   \<exists>j. walk_inv shuffled j phone' email' groups'"
proof (induction shuffled i phone email groups g rule: contact_walk.induct)
  case (1 shuffled i phone email groups g)
  show ?case
  proof (cases "i < length shuffled")
    case False
    with "1.prems" show ?thesis by (auto simp: contact_walk.simps)
  next
    case True
    obtain u g1 where ru: "random_unit g = (u, g1)" by (cases "random_unit g")
    show ?thesis
    proof (cases "u < PHONE_SHARE_RATE")
      case False
      have "contact_walk shuffled (i + 1) phone email groups g1 = (phone', email', groups', g')"
        using "1.prems"(3) True ru False by (simp add: contact_walk.simps[of shuffled i])
      with "1.IH"(2)[OF True ru[symmetric] False "1.prems"(1) walk_inv_skip[OF "1.prems"(2)]]
      show ?thesis by blast
    next
      case share: True
      obtain k g2 where rk: "randint 2 5 g1 = (k, g2)" by (cases "randint 2 5 g1")
      obtain sp g3 where rp: "phone_value g2 = (sp, g3)" by (cases "phone_value g2")
      obtain se g4 where re: "fraud_email_value g3 = (se, g4)" by (cases "fraud_email_value g3")
      have w: "contact_walk shuffled (i + nat k)
                 (assign_all (slice shuffled i (nat k)) sp phone)
                 (assign_all (slice shuffled i (nat k)) se email)
                 (groups @ [slice shuffled i (nat k)]) g4 = (phone', email', groups', g')"
        using "1.prems"(3) True ru share rk rp re by (simp add: contact_walk.simps[of shuffled i])
      from "1.IH"(1)[OF True ru[symmetric] share rk[symmetric] rp[symmetric]
          re[symmetric] "1.prems"(1) walk_inv_group[OF "1.prems"(1) "1.prems"(2)] w]
      show ?thesis .
    qed
  qed
qed

lemma locations_nonempty: "locations \<noteq> []"
  by (simp add: locations_def LOCATION_COUNT_def)

lemma locations_first: "locations ! 0 = ''L001''"
  by (simp add: locations_def LOCATION_COUNT_def str_03d_def str_nat.simps upt_conv_Cons
      numeral_2_eq_2)

lemma str_int_100000: "str_int 100000 = ''100000''"
  by (simp add: str_int_def str_nat.simps)

lemma str_int_1000: "str_int 1000 = ''1000''"
  by (simp add: str_int_def str_nat.simps)

lemmas contact_eval = contact_dicts_def assign_locations_and_contacts_def contact_groups_def
  RANDOM_SEED_def core_row_def randbelow_def randint_def random_unit_def shuffle_def swap_def
  slice_def PHONE_SHARE_RATE_def phone_value_def email_value_def fraud_email_value_def
  choice_value_def locations_nonempty locations_first str_int_100000 str_int_1000
  contact_walk.simps all_zero_def

lemma contact_dicts_inv:
  assumes "contact_dicts sd out = Inr (loc_map, phone, email, groups, g1)"
  shows "\<exists>j. walk_inv (fst (shuffle (unique (map sender_id out))
                 (snd (dict_comprehension email_value (unique (map sender_id out)) Map.empty
                   (snd (dict_comprehension phone_value (unique (map sender_id out)) Map.empty
                     (snd (dict_comprehension (choice_value locations) (unique (map sender_id out)) Map.empty (sd RANDOM_SEED))))))))) j phone email groups"
proof -
  let ?senders = "unique (map sender_id out)"
  obtain lm g1' where a: "dict_comprehension (choice_value locations) ?senders Map.empty (sd RANDOM_SEED) = (lm, g1')"
    by (cases "dict_comprehension (choice_value locations) ?senders Map.empty (sd RANDOM_SEED)")
  obtain ph g2 where b: "dict_comprehension phone_value ?senders Map.empty g1' = (ph, g2)"
    by (cases "dict_comprehension phone_value ?senders Map.empty g1'")
  obtain em g3 where c: "dict_comprehension email_value ?senders Map.empty g2 = (em, g3)"
    by (cases "dict_comprehension email_value ?senders Map.empty g2")
  obtain sh g4 where d: "shuffle ?senders g3 = (sh, g4)"
    by (cases "shuffle ?senders g3")
  have w: "contact_walk sh 0 ph em [] g4 = (phone, email, groups, g1)"
    using assms a b c d
    by (auto simp: contact_dicts_def Let_def split: if_splits prod.splits)
  have "distinct sh" using shuffle_distinct[of ?senders g3] d by simp
  moreover have "walk_inv sh 0 ph em []" by (simp add: walk_inv_def)
  ultimately have "\<exists>j. walk_inv sh j phone email groups"
    using contact_walk_inv w by blast
  then show ?thesis using a b c d by simp
qed

lemma device_walk_groups:
  "\<forall>grp\<in>set groups. 2 \<le> length grp \<Longrightarrow>
   device_walk shuffled i dev groups g = (dev', groups', g') \<Longrightarrow>
   \<forall>grp\<in>set groups'. 2 \<le> length grp"
proof (induction shuffled i dev groups g rule: device_walk.induct)
  case (1 shuffled i dev groups g)
  show ?case
  proof (cases "i < length shuffled")
    case False
    with "1.prems" show ?thesis by (auto simp: device_walk.simps)
  next
    case True
    obtain u g1 where ru: "random_unit g = (u, g1)" by (cases "random_unit g")
    show ?thesis
    proof (cases "u < SHARE_RATE")
      case False
      have "device_walk shuffled (i + 1) dev groups g1 = (dev', groups', g')"
        using "1.prems"(2) True ru False by (simp add: device_walk.simps[of shuffled i])
      with "1.IH"(2)[OF True ru[symmetric] False "1.prems"(1)] show ?thesis by blast
    next
      case share: True
      obtain k g2 where rk: "randint MIN_GROUP MAX_GROUP g1 = (k, g2)"
        by (cases "randint MIN_GROUP MAX_GROUP g1")
      show ?thesis
      proof (cases "length (slice shuffled i (nat k)) < 2")
        case True
        then have "groups' = groups"
          using "1.prems"(2) \<open>i < length shuffled\<close> ru share rk
          by (simp add: device_walk.simps[of shuffled i])
        then show ?thesis using "1.prems"(1) by simp
      next
        case False
        obtain sid g3 where rd: "device_value g2 = (sid, g3)" by (cases "device_value g2")
        have w: "device_walk shuffled (i + nat k)
                   (assign_all (slice shuffled i (nat k)) sid dev)
                   (groups @ [slice shuffled i (nat k)]) g3 = (dev', groups', g')"
          using "1.prems"(2) True ru share rk False rd
          by (simp add: device_walk.simps[of shuffled i])
        have "\<forall>grp\<in>set (groups @ [slice shuffled i (nat k)]). 2 \<le> length grp"
          using "1.prems"(1) False by auto
        from "1.IH"(1)[OF True ru[symmetric] share rk[symmetric] False rd[symmetric] this w]
        show ?thesis .
      qed
    qed
  qed
qed

lemma device_groups_at_least_two:
  "grp \<in> set (device_groups sd out) \<Longrightarrow> 2 \<le> length grp"
proof -
  assume a: "grp \<in> set (device_groups sd out)"
  obtain dev groups g where dd: "device_dict sd out = (dev, groups, g)"
    by (cases "device_dict sd out") auto
  then have "\<forall>grp\<in>set groups. 2 \<le> length grp"
    using device_walk_groups[of "[]"]
    by (auto simp: device_dict_def Let_def split: prod.splits)
  with a dd show ?thesis by (simp add: device_groups_def)
qed

lemma dict_comprehension_values:
  "(\<And>g. fst (gen g) \<in> V) \<Longrightarrow> (\<forall>s\<in>S. m s \<in> Some ` V) \<Longrightarrow>
   \<forall>s\<in>S \<union> set ss. fst (dict_comprehension gen ss m g) s \<in> Some ` V"
proof (induction ss arbitrary: m g S)
  case Nil
  then show ?case by simp
next
  case (Cons a ss)
  obtain v g' where gv: "gen g = (v, g')" by (cases "gen g")
  then have v: "v \<in> V" using Cons.prems(1)[of g] by simp
  have "\<forall>s\<in>insert a S. (m(a \<mapsto> v)) s \<in> Some ` V"
    using Cons.prems(2) v by auto
  then have "\<forall>s\<in>insert a S \<union> set ss. fst (dict_comprehension gen ss (m(a \<mapsto> v)) g') s \<in> Some ` V"
    by (rule Cons.IH[OF Cons.prems(1)])
  moreover have "dict_comprehension gen (a # ss) m g = dict_comprehension gen ss (m(a \<mapsto> v)) g'"
    using gv by simp
  ultimately show ?case
    by (simp only: list.set Un_insert_right Un_insert_left)
qed

lemma card_initial_emails: "finite initial_emails \<and> card initial_emails \<le> 9000"
proof -
  have "card initial_emails \<le> card {1000 .. 9999 :: int}"
    unfolding initial_emails_def by (rule card_image_le) simp
  then show ?thesis by (simp add: initial_emails_def)
qed

lemma email_value_range: "fst (email_value g) \<in> initial_emails"
proof -
  have "shd g mod 9000 < 9000" by simp
  then have "1000 + int (shd g mod 9000) \<in> {1000 .. 9999}" by simp
  then show ?thesis
    by (simp add: email_value_def randint_def initial_emails_def)
qed

lemma pool_remove:
  assumes "j < length pool"
  shows "add_mset (pool ! j) (mset (butlast (pool[j := last pool]))) = mset pool"
proof -
  from assms have "pool \<noteq> []" by auto
  then obtain ys l where p: "pool = ys @ [l]" by (metis rev_exhaust)
  show ?thesis
  proof (cases "j < length ys")
    case True
    then have "butlast (pool[j := last pool]) = ys[j := l]"
      by (simp add: p list_update_append)
    moreover have "pool ! j = ys ! j" using True by (simp add: p nth_append)
    moreover have "add_mset (ys ! j) (mset (ys[j := l])) = add_mset l (mset ys)"
      using True by (simp add: mset_update)
    ultimately show ?thesis by (simp add: p)
  next
    case False
    with assms have "j = length ys" by (simp add: p)
    then show ?thesis by (simp add: p)
  qed
qed

lemma sample_loop_length:
  "k \<le> length pool \<Longrightarrow> length (fst (sample_loop k pool g)) = k"
proof (induction k arbitrary: pool g)
  case 0
  then show ?case by simp
next
  case (Suc k)
  let ?pool' = "butlast (pool[shd g mod length pool := last pool])"
  have "k \<le> length ?pool'" using Suc.prems by simp
  then have "length (fst (sample_loop k ?pool' (stl g))) = k" by (rule Suc.IH)
  then show ?case by (auto simp: randbelow_def split: prod.splits)
qed

lemma sample_loop_mset:
  "k \<le> length pool \<Longrightarrow> mset (fst (sample_loop k pool g)) \<subseteq># mset pool"
proof (induction k arbitrary: pool g)
  case 0
  then show ?case by simp
next
  case (Suc k)
  let ?j = "shd g mod length pool"
  let ?pool' = "butlast (pool[?j := last pool])"
  from Suc.prems have "0 < length pool" by (cases pool) simp_all
  then have j: "?j < length pool" by (rule mod_less_divisor)
  have "k \<le> length ?pool'" using Suc.prems by simp
  then have "mset (fst (sample_loop k ?pool' (stl g))) \<subseteq># mset ?pool'"
    by (rule Suc.IH)
  then have "add_mset (pool ! ?j) (mset (fst (sample_loop k ?pool' (stl g)))) \<subseteq># mset pool"
    using pool_remove[OF j] by (metis mset_subset_eq_add_mset_cancel)
  then show ?case by (auto simp: randbelow_def split: prod.splits)
qed

lemma distinct_mset_subseteq:
  "mset xs \<subseteq># mset ys \<Longrightarrow> distinct ys \<Longrightarrow> distinct xs"
proof (induction xs arbitrary: ys)
  case Nil
  then show ?case by simp
next
  case (Cons x xs)
  from Cons.prems(1) have sub: "mset xs \<subseteq># mset (remove1 x ys)"
    by (simp add: insert_subset_eq_iff)
  have d': "distinct (remove1 x ys)" using Cons.prems(2) by simp
  have "distinct xs" by (rule Cons.IH[OF sub d'])
  moreover have "x \<notin> set (remove1 x ys)" using Cons.prems(2) by simp
  then have "x \<notin> set xs" using sub by (metis set_mset_mono set_mset_mset subsetD)
  ultimately show ?case by simp
qed

lemma sample_loop_distinct:
  "k \<le> length pool \<Longrightarrow> distinct pool \<Longrightarrow> distinct (fst (sample_loop k pool g))"
  using sample_loop_mset[of k pool g] distinct_mset_subseteq by blast

lemma sample_loop_set:
  "k \<le> length pool \<Longrightarrow> set (fst (sample_loop k pool g)) \<subseteq> set pool"
  using sample_loop_mset[of k pool g] by (metis set_mset_mono set_mset_mset)

lemma merchant_rate_floor: "\<lfloor>real n * MERCHANT_RATE\<rfloor> \<le> int n"
proof -
  have "real n * MERCHANT_RATE \<le> real n" by (simp add: MERCHANT_RATE_def)
  then have "\<lfloor>real n * MERCHANT_RATE\<rfloor> \<le> \<lfloor>real n\<rfloor>" by (rule floor_mono)
  then show ?thesis by simp
qed


lemma ten_rows_receivers:
  "unique (map receiver_id ten_rows) =
     [''r0'', ''r1'', ''r2'', ''r3'', ''r4'', ''r5'', ''r6'', ''r7'', ''r8'', ''r9'']"
  by (simp add: ten_rows_def core_row_def)

lemma ten_rows_card: "card (receiver_id ` set ten_rows) = 10"
  by (simp add: ten_rows_def core_row_def)

lemma merchant_set_iff:
  "x \<in> merchant_set out \<longleftrightarrow>
     (\<exists>r\<in>set out. receiver_id r = x \<and> receiver_type r = Some ''merchant'')"
  by (auto simp: merchant_set_def)

lemma choice_nonempty: "seq \<noteq> [] \<Longrightarrow> choice seq g = Inr (choice_value seq g)"
  by (simp add: choice_def choice_value_def split: prod.splits)

lemma initial_devices_can_collide:
  "fst (dict_comprehension device_value [''a'', ''b''] Map.empty (sconst 0)) ''a'' =
     Some ''D100000'' \<and>
   fst (dict_comprehension device_value [''a'', ''b''] Map.empty (sconst 0)) ''b'' =
     Some ''D100000''"
  by (simp add: device_value_def randint_def str_int_100000)

section \<open>The Graph Ingestor: what a batch preserves\<close>

lemma extends_refl: "extends g g"
  by (simp add: extends_def)

lemma extends_nodeD:
  assumes "extends g g'" and "n < length (nodes g)"
  shows "n < length (nodes g')"
    and "node_id (nodes g' ! n) = node_id (nodes g ! n)"
    and "User \<in> labels (nodes g' ! n) \<Longrightarrow> User \<in> labels (nodes g ! n)"
    and "Merchant \<in> labels (nodes g ! n) \<Longrightarrow> Merchant \<in> labels (nodes g' ! n)"
  using assms unfolding extends_def by auto

lemma extends_relsD:
  assumes "extends g g'"
  shows "take (length (rels g)) (rels g') = rels g" and "length (rels g) \<le> length (rels g')"
proof -
  show t: "take (length (rels g)) (rels g') = rels g"
    using assms unfolding extends_def by blast
  have "length (take (length (rels g)) (rels g')) = length (rels g)"
    by (simp only: t)
  then show "length (rels g) \<le> length (rels g')" by simp
qed

lemma extends_trans:
  assumes a: "extends g1 g2" and b: "extends g2 g3"
  shows "extends g1 g3"
proof -
  note r12 = extends_relsD[OF a] and r23 = extends_relsD[OF b]
  have "take (length (rels g1)) (rels g3) =
        take (length (rels g1)) (take (length (rels g2)) (rels g3))"
    using r12(2) by (simp add: min_def)
  also have "\<dots> = rels g1" by (simp only: r23(1) r12(1))
  finally have r: "take (length (rels g1)) (rels g3) = rels g1" .
  have len: "length (nodes g1) \<le> length (nodes g3)"
    using a b unfolding extends_def by linarith
  have nodes: "node_id (nodes g3 ! n) = node_id (nodes g1 ! n) \<and>
        (User \<in> labels (nodes g3 ! n) \<longrightarrow> User \<in> labels (nodes g1 ! n)) \<and>
        (Merchant \<in> labels (nodes g1 ! n) \<longrightarrow> Merchant \<in> labels (nodes g3 ! n))"
    if n: "n < length (nodes g1)" for n
  proof -
    note d1 = extends_nodeD[OF a n]
    note d2 = extends_nodeD[OF b d1(1)]
    show ?thesis using d1(2,3,4) d2(2,3,4) by metis
  qed
  show ?thesis unfolding extends_def using len nodes r by blast
qed

lemma create_node_extends:
  "extends g (fst (create_node ls i g))"
  unfolding extends_def create_node_def fst_conv
  apply (intro conjI allI impI)
      apply simp
     apply (simp add: nth_append)
    apply (simp add: nth_append)
   apply (simp add: nth_append)
  apply simp
  done

lemma create_rel_extends: "create_rel s ty d tx g = (g', x) \<Longrightarrow> extends g g'"
  by (auto simp: create_rel_def extends_def)

lemma nth_update_in_range:
  "n < length xs \<Longrightarrow> xs[t := y] ! n = (if t = n then y else xs ! n)"
  by (simp add: nth_list_update)

lemma set_label_Merchant_extends: "set_label t Merchant g = Inr g' \<Longrightarrow> extends g g'"
  by (auto simp: set_label_def extends_def nth_update_in_range split: if_splits)

lemma remove_label_User_extends: "extends g (remove_label t User g)"
  by (auto simp: remove_label_def extends_def nth_update_in_range)

lemma merge_node_extends:
  assumes "merge_node l v g = Inr (g', xs)"
  shows "extends g g'"
proof (cases v)
  case None
  with assms show ?thesis by (simp add: merge_node_def)
next
  case (Some i)
  show ?thesis
  proof (cases "match_nodes {l} i g")
    case Nil
    with assms Some have "g' = fst (create_node {l} i g)"
      by (simp add: merge_node_def split: prod.splits)
    then show ?thesis by (simp add: create_node_extends)
  next
    case (Cons m ms)
    with assms Some show ?thesis by (simp add: merge_node_def extends_refl)
  qed
qed

lemma merge_receiver_extends:
  assumes "merge_receiver i g = Inr (g', xs)"
  shows "extends g g'"
proof (cases "match_nodes {} i g")
  case Nil
  let ?g1 = "g\<lparr>nodes := nodes g @ [\<lparr>labels = {}, node_id = i\<rparr>]\<rparr>"
  from assms Nil have "set_label (length (nodes g)) User ?g1 = Inr g'"
    by (auto simp: merge_receiver_def then_do_def create_node_def split: sum.splits)
  then have "g' = ?g1\<lparr>nodes := (nodes ?g1)[length (nodes g) :=
                 (nodes ?g1 ! length (nodes g))\<lparr>labels := {User}\<rparr>]\<rparr>"
    by (auto simp: set_label_def split: if_splits)
  then show ?thesis by (auto simp: extends_def nth_append)
next
  case (Cons m ms)
  with assms show ?thesis by (simp add: merge_receiver_def extends_refl)
qed

lemma relabel_merchant_extends:
  assumes "relabel_merchant b g = Inr g'"
  shows "extends g g'"
proof (cases b)
  case (Pair rs t)
  show ?thesis
  proof (cases "receiver_type (fst rs) = Some ''merchant''")
    case True
    with assms Pair obtain g1 where 1: "set_label t Merchant g = Inr g1"
      and 2: "g' = remove_label t User g1"
      by (auto simp: relabel_merchant_def then_do_def split: sum.splits prod.splits)
    show ?thesis
      unfolding 2 by (rule extends_trans[OF set_label_Merchant_extends[OF 1] remove_label_User_extends])
  next
    case False
    with assms Pair show ?thesis
      by (auto simp: relabel_merchant_def extends_refl split: prod.splits)
  qed
qed

lemma merge_rel_extends: "merge_rel s ty d g = Inr (g', xs) \<Longrightarrow> extends g g'"
  by (auto simp: merge_rel_def extends_refl create_rel_extends split: list.splits prod.splits)

lemma merge_transaction_extends: "merge_transaction b g = Inr (g', xs) \<Longrightarrow> extends g g'"
  by (auto simp: merge_transaction_def create_rel_def set_transaction_properties_def
      extends_def split: list.splits prod.splits)

lemma merge_rows_extends:
  assumes "\<And>b g g' xs. f b g = Inr (g', xs) \<Longrightarrow> extends g g'"
  shows "merge_rows f g bs = Inr (g', out) \<Longrightarrow> extends g g'"
proof (induction bs arbitrary: g g' out)
  case Nil
  then show ?case by (simp add: extends_refl)
next
  case (Cons b bs)
  from Cons.prems obtain g1 xs out1 where
    1: "f b g = Inr (g1, xs)" and 2: "merge_rows f g1 bs = Inr (g', out1)"
    by (auto split: sum.splits prod.splits)
  show ?case using extends_trans[OF assms[OF 1] Cons.IH[OF 2]] .
qed

lemma foreach_rows_extends:
  assumes "\<And>b g g'. f b g = Inr g' \<Longrightarrow> extends g g'"
  shows "foreach_rows f g bs = Inr g' \<Longrightarrow> extends g g'"
proof (induction bs arbitrary: g g')
  case Nil
  then show ?case by (simp add: extends_refl)
next
  case (Cons b bs)
  from Cons.prems obtain g1 where
    1: "f b g = Inr g1" and 2: "foreach_rows f g1 bs = Inr g'"
    by (auto split: sum.splits)
  show ?case using extends_trans[OF assms[OF 1] Cons.IH[OF 2]] .
qed

lemma then_do_extends_step:
  assumes "then_do r k = Inr y"
    and "\<And>g1 t. r = Inr (g1, t) \<Longrightarrow> extends g g1"
    and "\<And>g1 t. k (g1, t) = Inr y \<Longrightarrow> extends g1 y"
  shows "extends g y"
proof -
  from assms(1) obtain g1 t where "r = Inr (g1, t)" "k (g1, t) = Inr y"
    by (cases r) (auto simp: then_do_def)
  then show ?thesis using assms(2,3) extends_trans by blast
qed

lemma then_do_extends_step_graph:
  assumes "then_do r k = Inr y"
    and "\<And>g1. r = Inr g1 \<Longrightarrow> extends g g1"
    and "\<And>g1. k g1 = Inr y \<Longrightarrow> extends g1 y"
  shows "extends g y"
proof -
  from assms(1) obtain g1 where "r = Inr g1" "k g1 = Inr y"
    by (cases r) (auto simp: then_do_def)
  then show ?thesis using assms(2,3) extends_trans by blast
qed

lemma merge_node_rows_extends:
  "merge_rows (\<lambda>b. merge_node l (col b)) g tab = Inr (g', tab') \<Longrightarrow> extends g g'"
  by (erule merge_rows_extends[rotated]) (rule merge_node_extends)

lemma merge_resource_extends:
  assumes "merge_resource l ty col g tab = Inr (g', tab')"
  shows "extends g g'"
proof -
  from assms obtain g1 tab1 tab2 where
    1: "merge_rows (\<lambda>b. case b of ((r, s), t) \<Rightarrow> merge_node l (col r)) g tab = Inr (g1, tab1)"
    and 2: "merge_rows (\<lambda>b. case b of (((r, s), t), d) \<Rightarrow> merge_rel s ty d) g1 tab1 = Inr (g', tab2)"
    by (auto simp: merge_resource_def then_do_def split: sum.splits prod.splits)
  have e1: "extends g g1"
    by (rule merge_rows_extends[OF _ 1]) (auto split: prod.splits dest: merge_node_extends)
  have e2: "extends g1 g'"
    by (rule merge_rows_extends[OF _ 2]) (auto split: prod.splits dest: merge_rel_extends)
  show ?thesis by (rule extends_trans[OF e1 e2])
qed

lemma load_batch_extends:
  assumes "load_batch g rows = Inr g'"
  shows "extends g g'"
  using assms unfolding load_batch_def
proof (rule then_do_extends_step)
  fix g1 tab1
  assume "merge_rows (\<lambda>r. merge_node User (Some (sender_id r))) g rows = Inr (g1, tab1)"
  then show "extends g g1" by (rule merge_node_rows_extends)
next
  fix g1 tab1
  assume "(case (g1, tab1) of (g1, tab1) \<Rightarrow>
     then_do (merge_rows (\<lambda>b. case b of (r, s) \<Rightarrow> merge_receiver (receiver_id r)) g1 tab1)
       (\<lambda>(g2, tab2).
     then_do (foreach_rows relabel_merchant g2 tab2)
       (\<lambda>g3.
     then_do (merge_resource Device USES_DEVICE sender_device_id g3 tab2)
       (\<lambda>(g4, tab4).
     then_do (merge_resource Location LOCATED_IN sender_location g4 tab4)
       (\<lambda>(g5, tab5).
     then_do (merge_resource Phone HAS_PHONE sender_phone g5 tab5)
       (\<lambda>(g6, tab6).
     then_do (merge_resource Email HAS_EMAIL sender_email g6 tab6)
       (\<lambda>(g7, tab7).
     then_do (merge_rows merge_transaction g7 tab7)
       (\<lambda>(g8, tab8). Inr g8)))))))) = Inr g'"
  then show "extends g1 g'"
    apply simp
    apply (erule then_do_extends_step)
     apply (erule merge_rows_extends[rotated])
     apply (auto split: prod.splits dest: merge_receiver_extends)[1]
    apply simp
    apply (erule then_do_extends_step_graph)
     apply (erule foreach_rows_extends[rotated])
     apply (erule relabel_merchant_extends)
    apply (erule then_do_extends_step)
     apply (erule merge_resource_extends)
    apply simp
    apply (erule then_do_extends_step)
     apply (erule merge_resource_extends)
    apply simp
    apply (erule then_do_extends_step)
     apply (erule merge_resource_extends)
    apply simp
    apply (erule then_do_extends_step)
     apply (erule merge_resource_extends)
    apply simp
    apply (erule then_do_extends_step)
     apply (erule merge_rows_extends[rotated])
     apply (erule merge_transaction_extends)
    apply (simp add: extends_refl)
    done
qed

lemma execute_write_extends: "extends g (fst (execute_write g rows))"
  by (auto simp: execute_write_def extends_refl load_batch_extends split: sum.splits)

section \<open>The Risk Scorer: facts about the rules and the export\<close>

lemma or3_True: "or3 a b = Some True \<longleftrightarrow> a = Some True \<or> b = Some True"
  by (cases "(a, b)" rule: or3.cases) auto

lemma and3_True: "and3 a b = Some True \<longleftrightarrow> a = Some True \<and> b = Some True"
  by (cases "(a, b)" rule: and3.cases) auto

lemma gt3_True: "gt3 a b = Some True \<longleftrightarrow> (\<exists>x y. a = Some x \<and> b = Some y \<and> x > y)"
  by (cases "(a, b)" rule: gt3.cases) auto

lemma eq3_True: "eq3 a (Some b) = Some True \<longleftrightarrow> a = Some b"
  by (cases a) auto

lemma add3_Some: "add3 a (Some y) = Some z \<longleftrightarrow> (\<exists>x. a = Some x \<and> z = x + y)"
  by (cases a) auto

lemma set_suspicious_pr [simp]: "map pr (set_suspicious us) = map pr us"
  by (simp add: set_suspicious_def Let_def comp_def)

lemma suspicious_after_rules:
  assumes "i < length us"
  shows "suspicious (apply_rules us ! i) =
           suspicious_rule (avg (map pr us)) (stDev (map pr us)) (us ! i)"
  using assms by (simp add: apply_rules_def set_highRisk_def set_suspicious_def Let_def)

lemma suspicious_rule_iff:
  "suspicious_rule meanPR sdPR u = Some True \<longleftrightarrow>
     (\<exists>p m. pr u = Some p \<and> meanPR = Some m \<and> p > m + 3 * sdPR) \<or>
     coalesce (coUsers u) 0 \<ge> 2 \<or> coalesce (triangles u) 0 \<ge> 2"
  by (auto simp: suspicious_rule_def or3_True gt3_True add3_Some)

lemma highRisk_after_rules:
  assumes "i < length us"
  shows "highRisk (apply_rules us ! i) = Some True \<longleftrightarrow>
           highRisk (us ! i) = Some True \<or>
           (suspicious (apply_rules us ! i) = Some True \<and>
            (coalesce (coUsers (us ! i)) 0 \<ge> 4 \<or>
             (\<exists>p m. pr (us ! i) = Some p \<and> avg (map pr us) = Some m \<and>
                    p > m + 2 * stDev (map pr us))))"
proof -
  let ?m = "avg (map pr us)" and ?sd = "stDev (map pr us)"
  let ?u = "(us ! i)\<lparr>suspicious := suspicious_rule ?m ?sd (us ! i)\<rparr>"
  have s: "set_suspicious us ! i = ?u"
    using assms by (simp add: set_suspicious_def Let_def)
  have a: "apply_rules us ! i =
             (if highRisk_where ?m ?sd ?u = Some True then ?u\<lparr>highRisk := Some True\<rparr> else ?u)"
    using assms s unfolding apply_rules_def set_highRisk_def Let_def set_suspicious_pr
    by (simp add: set_suspicious_def Let_def)
  have w: "highRisk_where ?m ?sd ?u = Some True \<longleftrightarrow>
             suspicious_rule ?m ?sd (us ! i) = Some True \<and>
             (coalesce (coUsers (us ! i)) 0 \<ge> 4 \<or>
              (\<exists>p m. pr (us ! i) = Some p \<and> ?m = Some m \<and> p > m + 2 * ?sd))"
    by (auto simp: highRisk_where_def and3_True or3_True gt3_True eq3_True add3_Some)
  show ?thesis
    unfolding suspicious_after_rules[OF assms] unfolding a using w by auto
qed

lemma mset_take_subseteq: "mset (take n xs) \<subseteq># mset xs"
proof -
  have "mset xs = mset (take n xs) + mset (drop n xs)"
    by (metis append_take_drop_id mset_append)
  then show ?thesis by simp
qed

lemma coalesce_case: "coalesce v d = (case v of None \<Rightarrow> d | Some a \<Rightarrow> a)"
  by (cases v) auto

lemma risk_export_sorted: "sorted (map order_key (risk_export us))"
  unfolding risk_export_def take_map[symmetric]
  by (rule sorted_wrt_take) (rule sorted_sort_key)

lemma order_key_le:
  "order_key a \<le> order_key b \<longleftrightarrow>
     (row_highRisk a \<and> \<not> row_highRisk b) \<or>
     (row_highRisk a = row_highRisk b \<and>
        (row_coUsers b < row_coUsers a \<or>
         (row_coUsers a = row_coUsers b \<and> row_pr b \<le> row_pr a)))"
  by (auto simp: order_key_def)

lemma flagged_pair_export:
  "risk_export flagged_pair =
     [\<lparr>row_user = ''u3'', row_highRisk = True, row_coUsers = 3, row_pr = 1 / 10,
       row_degree = 0, row_triangles = 0, row_community = - 1\<rparr>,
      \<lparr>row_user = ''u1'', row_highRisk = False, row_coUsers = 3, row_pr = 2 / 10,
       row_degree = 0, row_triangles = 0, row_community = - 1\<rparr>]"
  by (simp add: risk_export_def flagged_pair_def plain_user_def flagged_def return_row_def
      order_key_def round6_def)

lemma flagged_iff: "flagged u \<longleftrightarrow> suspicious u = Some True \<or> highRisk u = Some True"
  by (auto simp: flagged_def or3_True eq3_True)

lemma flagged_eq: "flagged = (\<lambda>u. suspicious u = Some True \<or> highRisk u = Some True)"
  by (rule ext) (rule flagged_iff)

lemma ranks_before_key: "ranks_before a b \<longleftrightarrow> order_key a \<le> order_key b"
  by (simp only: ranks_before_def order_key_le)

lemma sorted_rows_ranked:
  "sorted_wrt ranks_before (sort_key order_key rs)"
proof -
  have "sorted (map order_key (sort_key order_key rs))" by (rule sorted_sort_key)
  then have "sorted_wrt (\<lambda>a b. order_key a \<le> order_key b) (sort_key order_key rs)"
    by (simp add: sorted_map)
  then show ?thesis by (simp add: ranks_before_key[abs_def])
qed

lemma sorted_wrt_take_drop:
  assumes "sorted_wrt R xs" and "e \<in> set (take n xs)" and "r \<in> set (drop n xs)"
  shows "R e r"
proof -
  have "sorted_wrt R (take n xs @ drop n xs)" using assms(1) by simp
  then show ?thesis using assms(2,3) unfolding sorted_wrt_append by blast
qed

section \<open>The Attribute Synthesizer: claims\<close>

text \<open>
  C1. After synthesis every identity has one value per attribute family, and every group
  that was deliberately given a shared value has at least two members. The device walk
  keeps this (\<open>device_groups_at_least_two\<close>): it breaks off when the slice has fewer than
  two members. The contact walk has no such check. On a frame with the single sender
  \<open>a\<close> and a generator whose first trial succeeds, the slice at the last position is
  \<open>[a]\<close>, it is recorded as a group, and \<open>a\<close> alone receives the shared phone and the
  shared \<^verbatim>\<open>fraud...@mail.com\<close> address.
\<close>

theorem C1_contact_group_of_one:
  "contact_groups all_zero [core_row ''T0000000'' ''a'' ''x''] = [[''a'']] \<and>
   assign_locations_and_contacts all_zero [core_row ''T0000000'' ''a'' ''x''] g =
     Inr ([(core_row ''T0000000'' ''a'' ''x'')
             \<lparr>sender_location := Some ''L001'', sender_phone := Some ''P100000'',
              sender_email := Some ''fraud1000@mail.com''\<rparr>], sconst 0)"
  by (simp add: contact_eval)

text \<open>
  C2, as the code has it. For a non-empty frame \<open>assign_merchants\<close> succeeds, keeps the
  rows, and marks as merchants a set of exactly
  \<open>max 1 \<lfloor>receiver_count * MERCHANT_RATE\<rfloor>\<close> receivers (the product is truncated, not
  rounded), all of them receivers of the frame; a row's role is merchant when its
  receiver is in that set and user otherwise.
\<close>

theorem C2_merchant_sample:
  assumes "out \<noteq> []"
  shows "\<exists>out' g'. assign_merchants sd out g0 = Inr (out', g') \<and>
      map receiver_id out' = map receiver_id out \<and>
      int (card (merchant_set out')) =
        max 1 \<lfloor>real (card (receiver_id ` set out)) * MERCHANT_RATE\<rfloor> \<and>
      merchant_set out' \<subseteq> receiver_id ` set out \<and>
      (\<forall>r\<in>set out'. receiver_type r =
          Some (if receiver_id r \<in> merchant_set out' then ''merchant'' else ''user''))"
proof -
  define receivers where "receivers = unique (map receiver_id out)"
  define k where "k = max 1 \<lfloor>real (length receivers) * MERCHANT_RATE\<rfloor>"
  define merchants where "merchants = fst (sample_loop (nat k) receivers (sd RANDOM_SEED))"
  define out' where "out' = map (\<lambda>r. r\<lparr>receiver_type :=
                        Some (if receiver_id r \<in> set merchants then ''merchant'' else ''user'')\<rparr>) out"
  have ne: "receivers \<noteq> []"
    using assms unique_set[of "map receiver_id out"] unfolding receivers_def
    by (metis list.map_disc_iff set_empty)
  then have one: "1 \<le> int (length receivers)" by (cases receivers) simp_all
  have k1: "1 \<le> k" by (simp add: k_def)
  have kn: "k \<le> int (length receivers)"
    unfolding k_def using merchant_rate_floor[of "length receivers"] one by simp
  then have kn': "nat k \<le> length receivers" by simp
  have keq: "(if \<lfloor>real (length receivers) * MERCHANT_RATE\<rfloor> > 0
              then \<lfloor>real (length receivers) * MERCHANT_RATE\<rfloor> else 1) = k"
    by (simp add: k_def max_def)
  have run: "assign_merchants sd out g0 =
               Inr (out', snd (sample_loop (nat k) receivers (sd RANDOM_SEED)))"
    unfolding assign_merchants_def Let_def receivers_def[symmetric] keq
    using k1 kn by (simp add: sample_def merchants_def out'_def split: prod.splits)
  have len: "length receivers = card (receiver_id ` set out)"
    unfolding receivers_def by (metis distinct_card unique_distinct unique_set set_map)
  have sub: "set merchants \<subseteq> receiver_id ` set out"
    using sample_loop_set[OF kn', of "sd RANDOM_SEED"]
    unfolding merchants_def receivers_def by simp
  have dist: "distinct merchants"
    unfolding merchants_def by (rule sample_loop_distinct[OF kn']) (simp add: receivers_def)
  have mlen: "length merchants = nat k"
    unfolding merchants_def by (rule sample_loop_length[OF kn'])
  have ms: "merchant_set out' = set merchants"
  proof
    show "merchant_set out' \<subseteq> set merchants"
      by (auto simp: merchant_set_iff out'_def split: if_splits)
    show "set merchants \<subseteq> merchant_set out'"
    proof
      fix x assume x: "x \<in> set merchants"
      with sub obtain r where r: "r \<in> set out" "x = receiver_id r" by auto
      let ?r' = "r\<lparr>receiver_type := Some (if receiver_id r \<in> set merchants
                                             then ''merchant'' else ''user'')\<rparr>"
      have "?r' \<in> set out'" using r(1) by (simp add: out'_def)
      moreover have "receiver_id ?r' = x" "receiver_type ?r' = Some ''merchant''"
        using r(2) x by simp_all
      ultimately show "x \<in> merchant_set out'" unfolding merchant_set_iff by blast
    qed
  qed
  have "int (card (merchant_set out')) = k"
    using ms dist mlen k1 by (simp add: distinct_card)
  then have A: "int (card (merchant_set out')) =
      max 1 \<lfloor>real (card (receiver_id ` set out)) * MERCHANT_RATE\<rfloor>"
    by (simp only: k_def len)
  have B: "merchant_set out' \<subseteq> receiver_id ` set out" using ms sub by simp
  have C: "map receiver_id out' = map receiver_id out" by (simp add: out'_def)
  have D: "\<forall>r\<in>set out'. receiver_type r =
          Some (if receiver_id r \<in> merchant_set out' then ''merchant'' else ''user'')"
    unfolding ms by (auto simp: out'_def)
  show ?thesis
    apply (rule exI[of _ out'])
    apply (rule exI[of _ "snd (sample_loop (nat k) receivers (sd RANDOM_SEED))"])
    apply (intro conjI)
        apply (rule run)
       apply (rule C)
      apply (rule A)
     apply (rule B)
    apply (rule D)
    done
qed

theorem C2_merchant_sample_witness:
  "\<exists>out' g'. assign_merchants all_zero ten_rows (sconst 0) = Inr (out', g') \<and>
      map receiver_id out' = map receiver_id ten_rows \<and>
      int (card (merchant_set out')) = 1 \<and>
      merchant_set out' \<subseteq> receiver_id ` set ten_rows \<and>
      (\<forall>r\<in>set out'. receiver_type r =
          Some (if receiver_id r \<in> merchant_set out' then ''merchant'' else ''user''))"
proof -
  have ne: "ten_rows \<noteq> []" by (simp add: ten_rows_def)
  have c: "max 1 \<lfloor>real (card (receiver_id ` set ten_rows)) * MERCHANT_RATE\<rfloor> = 1"
    unfolding ten_rows_card by (simp add: MERCHANT_RATE_def)
  show ?thesis using C2_merchant_sample[OF ne, of all_zero "sconst 0"] unfolding c .
qed

text \<open>
  C2 as stated fails on the sample size: with ten distinct receivers the spec's
  \<open>round(10 * 0.16)\<close> is 2, while the code truncates 1.6 to 1 and marks one merchant.
\<close>

theorem C2_round_counterexample:
  "assign_merchants all_zero ten_rows (sconst 0) = Inr (ten_rows_marked, sconst 0) \<and>
   card (merchant_set ten_rows_marked) = 1 \<and>
   spec_merchant_count (card (receiver_id ` set ten_rows)) = 2"
proof -
  let ?receivers = "[''r0'', ''r1'', ''r2'', ''r3'', ''r4'', ''r5'', ''r6'', ''r7'', ''r8'', ''r9'']"
  have m: "\<lfloor>real (length ?receivers) * MERCHANT_RATE\<rfloor> = 1"
    by (simp add: MERCHANT_RATE_def)
  have s: "sample ?receivers 1 (sconst 0) = Inr ([''r0''], sconst 0)"
    by (simp add: sample_def randbelow_def)
  have run: "assign_merchants all_zero ten_rows (sconst 0) = Inr (ten_rows_marked, sconst 0)"
    unfolding assign_merchants_def Let_def ten_rows_receivers m all_zero_def ten_rows_marked_def
    by (simp add: s)
  have "merchant_set ten_rows_marked = {''r0''}"
    by (simp add: merchant_set_def ten_rows_marked_def ten_rows_def core_row_def)
  then have one: "card (merchant_set ten_rows_marked) = 1" by simp
  have spec: "spec_merchant_count (card (receiver_id ` set ten_rows)) = 2"
    unfolding ten_rows_card by (simp add: spec_merchant_count_def MERCHANT_RATE_def round_def)
  show ?thesis using run one spec by simp
qed

text \<open>
  C4. Running the synthesizer twice on the same input with the same configured seed
  yields identical output. Every stage reseeds the module's generator from
  \<open>RANDOM_SEED\<close> before its first draw, so the result (rows, or the error raised,
  and the generator state left behind) is a function of the seeding parameter and the
  input frame alone: it is the same whatever state \<open>g\<close> or \<open>g'\<close> the global generator
  was in when the run started.
\<close>

theorem C4_same_seed_same_output:
  "main_synthesis sd out g = main_synthesis sd out g'"
  by (simp add: main_synthesis_def assign_devices_def assign_merchants_def
      assign_locations_and_contacts_def split: prod.splits sum.splits)

text \<open>
  C9. The initialisation gives every identity its own value, pairwise distinct from the
  others'. The code draws each initial value independently and never checks for a
  repeat. For emails only the 9000 addresses \<^verbatim>\<open>user1000@mail.com\<close> to
  \<^verbatim>\<open>user9999@mail.com\<close> exist, so with more than 9000 distinct senders two of them
  start with the same address, whatever the generator draws. (Devices and phones
  collide when two draws coincide: \<open>initial_devices_can_collide\<close>.)
\<close>

theorem C9_initial_emails_collide:
  assumes "distinct senders" and "9000 < length senders"
  shows "\<exists>s\<in>set senders. \<exists>t\<in>set senders. s \<noteq> t \<and>
           fst (dict_comprehension email_value senders Map.empty g) s =
           fst (dict_comprehension email_value senders Map.empty g) t"
proof (rule ccontr)
  let ?m = "fst (dict_comprehension email_value senders Map.empty g)"
  assume "\<not> ?thesis"
  then have inj: "inj_on ?m (set senders)" by (auto simp: inj_on_def)
  have "\<forall>s\<in>{} \<union> set senders. ?m s \<in> Some ` initial_emails"
    by (rule dict_comprehension_values) (simp_all add: email_value_range)
  then have sub: "?m ` set senders \<subseteq> Some ` initial_emails" by auto
  have fin: "finite (Some ` initial_emails)" using card_initial_emails by simp
  have "card (set senders) = card (?m ` set senders)" using inj by (simp add: card_image)
  also have "\<dots> \<le> card (Some ` initial_emails)" by (rule card_mono[OF fin sub])
  also have "\<dots> \<le> card initial_emails" using card_initial_emails by (simp add: card_image_le)
  also have "\<dots> \<le> 9000" using card_initial_emails by simp
  finally show False using assms by (simp add: distinct_card)
qed

theorem C9_initial_emails_collide_witness:
  "\<exists>s\<in>set (map (\<lambda>n. replicate n (CHR ''a'')) [0 ..< 9001]).
   \<exists>t\<in>set (map (\<lambda>n. replicate n (CHR ''a'')) [0 ..< 9001]). s \<noteq> t \<and>
           fst (dict_comprehension email_value (map (\<lambda>n. replicate n (CHR ''a'')) [0 ..< 9001]) Map.empty (sconst 0)) s =
           fst (dict_comprehension email_value (map (\<lambda>n. replicate n (CHR ''a'')) [0 ..< 9001]) Map.empty (sconst 0)) t"
proof -
  have d: "distinct (map (\<lambda>n. replicate n (CHR ''a'')) [0 ..< 9001])"
    by (simp add: distinct_map inj_on_def)
  have l: "9000 < length (map (\<lambda>n. replicate n (CHR ''a'')) [0 ..< 9001])" by simp
  show ?thesis using C9_initial_emails_collide[OF d l] .
qed

text \<open>
  C10. Phone and email sharing groups coincide. Every group the contact walk forms is
  given one phone and one email value: two rows whose senders are in the same group
  carry the same phone and the same email, both present. Each group is consumed once:
  the groups are pairwise disjoint, so no later group overwrites an earlier one.
\<close>

theorem C10_group_shares_phone_and_email:
  assumes "assign_locations_and_contacts sd out g0 = Inr (out', g1)"
    and "grp \<in> set (contact_groups sd out)"
    and "r \<in> set out'" and "r' \<in> set out'"
    and "sender_id r \<in> set grp" and "sender_id r' \<in> set grp"
  shows "sender_phone r = sender_phone r' \<and> sender_email r = sender_email r' \<and>
         sender_phone r \<noteq> None \<and> sender_email r \<noteq> None \<and>
         distinct (concat (contact_groups sd out))"
proof -
  obtain loc_map phone email groups g5 where
    cd: "contact_dicts sd out = Inr (loc_map, phone, email, groups, g5)"
    using assms(1) by (auto simp: assign_locations_and_contacts_def split: sum.splits)
  have out': "out' = map (\<lambda>r. r\<lparr>sender_location := loc_map (sender_id r),
                          sender_phone := phone (sender_id r),
                          sender_email := email (sender_id r)\<rparr>) out"
    using assms(1) cd by (simp add: assign_locations_and_contacts_def)
  have grps: "contact_groups sd out = groups" using cd by (simp add: contact_groups_def)
  obtain sh j where inv: "walk_inv sh j phone email groups"
    using contact_dicts_inv[OF cd] by blast
  from inv assms(2) grps obtain p e where
    pe: "\<forall>s\<in>set grp. phone s = Some p \<and> email s = Some e"
    unfolding walk_inv_def by blast
  have r: "sender_phone r = phone (sender_id r)" "sender_email r = email (sender_id r)"
    and r': "sender_phone r' = phone (sender_id r')" "sender_email r' = email (sender_id r')"
    using assms(3,4) out' by auto
  show ?thesis using pe r r' assms(5,6) inv grps by (simp add: walk_inv_def)
qed

theorem C10_group_shares_phone_and_email_witness:
  "assign_locations_and_contacts all_zero
      [core_row ''T0000000'' ''a'' ''x'', core_row ''T0000001'' ''b'' ''x''] (sconst 5) =
     Inr ([(core_row ''T0000000'' ''a'' ''x'')
             \<lparr>sender_location := Some ''L001'', sender_phone := Some ''P100000'',
              sender_email := Some ''fraud1000@mail.com''\<rparr>,
           (core_row ''T0000001'' ''b'' ''x'')
             \<lparr>sender_location := Some ''L001'', sender_phone := Some ''P100000'',
              sender_email := Some ''fraud1000@mail.com''\<rparr>], sconst 0) \<and>
   [''b'', ''a''] \<in> set (contact_groups all_zero
      [core_row ''T0000000'' ''a'' ''x'', core_row ''T0000001'' ''b'' ''x'']) \<and>
   sender_phone ((core_row ''T0000000'' ''a'' ''x'')
             \<lparr>sender_location := Some ''L001'', sender_phone := Some ''P100000'',
              sender_email := Some ''fraud1000@mail.com''\<rparr>) =
   sender_phone ((core_row ''T0000001'' ''b'' ''x'')
             \<lparr>sender_location := Some ''L001'', sender_phone := Some ''P100000'',
              sender_email := Some ''fraud1000@mail.com''\<rparr>) \<and>
   distinct (concat (contact_groups all_zero
      [core_row ''T0000000'' ''a'' ''x'', core_row ''T0000001'' ''b'' ''x'']))"
proof -
  let ?sd = all_zero
  let ?out = "[core_row ''T0000000'' ''a'' ''x'', core_row ''T0000001'' ''b'' ''x'']"
  let ?ra = "(core_row ''T0000000'' ''a'' ''x'')
             \<lparr>sender_location := Some ''L001'', sender_phone := Some ''P100000'',
              sender_email := Some ''fraud1000@mail.com''\<rparr>"
  let ?rb = "(core_row ''T0000001'' ''b'' ''x'')
             \<lparr>sender_location := Some ''L001'', sender_phone := Some ''P100000'',
              sender_email := Some ''fraud1000@mail.com''\<rparr>"
  have run: "assign_locations_and_contacts ?sd ?out (sconst 5) = Inr ([?ra, ?rb], sconst 0)"
    by (simp add: contact_eval)
  have grp: "[''b'', ''a''] \<in> set (contact_groups ?sd ?out)"
    by (simp add: contact_eval)
  have "sender_phone ?ra = sender_phone ?rb \<and> sender_email ?ra = sender_email ?rb \<and>
        sender_phone ?ra \<noteq> None \<and> sender_email ?ra \<noteq> None \<and>
        distinct (concat (contact_groups ?sd ?out))"
    using C10_group_shares_phone_and_email[OF run grp, of ?ra ?rb] by (simp add: core_row_def)
  with run grp show ?thesis by blast
qed

section \<open>The Graph Ingestor: claims\<close>

lemmas loader_eval = load_batch_def then_do_def merge_resource_def merge_node_def
  merge_receiver_def relabel_merchant_def merge_rel_def merge_transaction_def match_nodes_def
  match_rels_def create_node_def create_rel_def set_label_def remove_label_def conflict_def
  set_transaction_properties_def enriched_row_def empty_graph_def execute_write_def
  two_rows_def loaded_once_def resource_rel_def transaction_rel_def upt_conv_Cons
  insert_Diff_if

text \<open>
  C5. A \<^verbatim>\<open>TRANSACTS_WITH\<close> edge that is in the graph keeps its stored amount, timestamp
  and label when a record with the same transaction id but other values is ingested.
  The statement sets the three properties only under \<^verbatim>\<open>ON CREATE\<close>, on the edge it has
  just created, and nothing else writes to an edge: every relationship \<open>x\<close> of the graph
  a batch starts from is the same relationship, with the same properties, in the graph
  the batch leaves (committed or rolled back), whatever the rows are.
\<close>

theorem C5_existing_edge_unchanged:
  assumes "x < length (rels g)"
  shows "rels (fst (execute_write g rows)) ! x = rels g ! x"
proof -
  have "take (length (rels g)) (rels (fst (execute_write g rows))) = rels g"
    by (rule extends_relsD(1)[OF execute_write_extends])
  then have "take (length (rels g)) (rels (fst (execute_write g rows))) ! x = rels g ! x"
    by simp
  with assms show ?thesis by simp
qed

theorem C5_existing_edge_unchanged_witness:
  "8 < length (rels loaded_once) \<and>
   txid (rels loaded_once ! 8) = Some ''T0000000'' \<and>
   rel_amount (rels loaded_once ! 8) = Some 10 \<and>
   execute_write loaded_once
      [(enriched_row ''T0000000'' ''A'' ''B'' ''merchant'' 99)
         \<lparr>timestamp := ''2025-02-02T02:00:00'', label := 1\<rparr>] = (loaded_once, None) \<and>
   rels (fst (execute_write loaded_once
      [(enriched_row ''T0000000'' ''A'' ''B'' ''merchant'' 99)
         \<lparr>timestamp := ''2025-02-02T02:00:00'', label := 1\<rparr>])) ! 8 =
     transaction_rel 0 1 ''T0000000'' 10"
proof -
  let ?rows = "[(enriched_row ''T0000000'' ''A'' ''B'' ''merchant'' 99)
         \<lparr>timestamp := ''2025-02-02T02:00:00'', label := 1\<rparr>]"
  have len: "8 < length (rels loaded_once)" by (simp add: loaded_once_def)
  have edge: "rels loaded_once ! 8 = transaction_rel 0 1 ''T0000000'' 10"
    by (simp add: loaded_once_def)
  have run: "execute_write loaded_once ?rows = (loaded_once, None)"
    by (simp add: loader_eval)
  have "rels (fst (execute_write loaded_once ?rows)) ! 8 = transaction_rel 0 1 ''T0000000'' 10"
    using C5_existing_edge_unchanged[OF len, of ?rows] edge by simp
  with len edge run show ?thesis by (simp add: transaction_rel_def)
qed

text \<open>
  C6. A node that carries \<open>Merchant\<close> and not \<open>User\<close> stays so through every further
  batch, whether its id occurs there as a receiver of either type or as a sender. The
  statement adds \<open>User\<close> only to a node it has just created and otherwise only adds
  \<open>Merchant\<close> and removes \<open>User\<close>. (A record that names the id as sender does not
  touch the node: \<^verbatim>\<open>MERGE (s:User {id: ...})\<close> does not match it and creates another node
  with that id.)
\<close>

theorem C6_merchant_is_permanent:
  assumes "n < length (nodes g)"
    and "Merchant \<in> labels (nodes g ! n)"
    and "User \<notin> labels (nodes g ! n)"
  shows "Merchant \<in> labels (nodes (fst (execute_write g rows)) ! n) \<and>
         User \<notin> labels (nodes (fst (execute_write g rows)) ! n) \<and>
         node_id (nodes (fst (execute_write g rows)) ! n) = node_id (nodes g ! n)"
  using extends_nodeD(2,3,4)[OF execute_write_extends assms(1), of rows] assms(2,3)
  by blast

theorem C6_merchant_is_permanent_witness:
  "1 < length (nodes loaded_once) \<and>
   Merchant \<in> labels (nodes loaded_once ! 1) \<and>
   User \<notin> labels (nodes loaded_once ! 1) \<and>
   snd (execute_write loaded_once
      [enriched_row ''T0000002'' ''A'' ''B'' ''user'' 5,
       enriched_row ''T0000003'' ''B'' ''A'' ''user'' 7]) = None \<and>
   Merchant \<in> labels (nodes (fst (execute_write loaded_once
      [enriched_row ''T0000002'' ''A'' ''B'' ''user'' 5,
       enriched_row ''T0000003'' ''B'' ''A'' ''user'' 7])) ! 1) \<and>
   User \<notin> labels (nodes (fst (execute_write loaded_once
      [enriched_row ''T0000002'' ''A'' ''B'' ''user'' 5,
       enriched_row ''T0000003'' ''B'' ''A'' ''user'' 7])) ! 1)"
proof -
  let ?rows = "[enriched_row ''T0000002'' ''A'' ''B'' ''user'' 5,
                enriched_row ''T0000003'' ''B'' ''A'' ''user'' 7]"
  have n: "1 < length (nodes loaded_once)" by (simp add: loaded_once_def)
  have m: "Merchant \<in> labels (nodes loaded_once ! 1)" by (simp add: loaded_once_def)
  have u: "User \<notin> labels (nodes loaded_once ! 1)" by (simp add: loaded_once_def)
  have run: "snd (execute_write loaded_once ?rows) = None" by (simp add: loader_eval)
  show ?thesis
    using C6_merchant_is_permanent[OF n m u, of ?rows] n m u run by blast
qed

lemma second_ingestion_duplicates_sender:
  "merge_rows (\<lambda>r. merge_node User (Some (sender_id r))) loaded_once two_rows =
     Inr (loaded_once\<lparr>nodes := nodes loaded_once @ [\<lparr>labels = {User}, node_id = ''B''\<rparr>]\<rparr>,
          [(enriched_row ''T0000000'' ''A'' ''B'' ''merchant'' 10, 0),
           (enriched_row ''T0000001'' ''B'' ''C'' ''user'' 20, 7)])"
  by (simp add: loader_eval)

text \<open>
  In \<open>two_rows\<close> the identity \<open>B\<close> receives as a merchant and also sends. The first
  ingestion into the empty graph commits \<open>loaded_once\<close>, where \<open>B\<close> is a \<open>Merchant\<close>. In the
  second, \<^verbatim>\<open>MERGE (s:User {id: 'B'})\<close> finds no \<open>User\<close> with that id and creates a second
  node for \<open>B\<close> (\<open>second_ingestion_duplicates_sender\<close>), the receiver pattern then matches
  both nodes, and \<^verbatim>\<open>SET t:Merchant\<close> on the new one breaks the uniqueness constraint on
  \<open>Merchant.id\<close>: the transaction is rolled back, and the graph is \<open>loaded_once\<close> as before.
\<close>

lemma second_ingestion_rolled_back:
  "execute_write empty_graph two_rows = (loaded_once, None) \<and>
   execute_write loaded_once two_rows = (loaded_once, Some ConstraintValidationFailed)"
  by (simp add: loader_eval)

section \<open>The Risk Scorer: claims\<close>

text \<open>
  C3. After the rules have run, \<open>suspicious\<close> is true exactly for the users whose PageRank
  exceeds the mean by three standard deviations or who have two or more co-users or
  triangles (\<open>suspicious_after_rules\<close>, \<open>suspicious_rule_iff\<close>), and \<open>highRisk\<close> should be
  true exactly for the suspicious users with four or more co-users or a PageRank above
  the mean by two standard deviations. The first statement writes \<open>suspicious\<close> on every
  user; the second only ever sets \<open>highRisk\<close> to true and never clears it
  (\<open>highRisk_after_rules\<close>). On a graph that was scored before, a user whose flag was
  set then and whose features no longer qualify keeps \<open>highRisk = true\<close> while
  \<open>suspicious\<close> becomes false: here two users with equal PageRank, no co-users and no
  triangles, the first carrying the flags of an earlier run.
\<close>

theorem C3_stale_highRisk_flag:
  "apply_rules
     [(plain_user ''u1'' (15 / 100))\<lparr>suspicious := Some True, highRisk := Some True\<rparr>,
      plain_user ''u2'' (15 / 100)] =
     [(plain_user ''u1'' (15 / 100))\<lparr>suspicious := Some False, highRisk := Some True\<rparr>,
      (plain_user ''u2'' (15 / 100))\<lparr>suspicious := Some False\<rparr>]"
  by (simp add: apply_rules_def set_highRisk_def set_suspicious_def Let_def highRisk_where_def
      suspicious_rule_def avg_def stDev_def plain_user_def)


text \<open>
  C8. The export is the first 1000 rows of the flagged users' rows in rank order: some
  arrangement \<open>all\<close> of the rows of all users whose \<open>suspicious\<close> or \<open>highRisk\<close> property is
  true, ordered by the high-risk flag (true first), then co-user count descending, then
  the exported PageRank descending, has the export as its first 1000 rows. So the
  export has \<open>min 1000 n\<close> rows for \<open>n\<close> flagged users; every exported row is the row of a
  flagged user; a flagged user whose row is not exported is ranked no higher than any
  exported row, and then the export is full; of two exported rows the earlier ranks
  before the later, so with equal co-user counts a high-risk row comes first; and a
  returned row has 0 for a missing co-user count, PageRank, degree or triangle count,
  \<open>-1\<close> for a missing community and \<open>false\<close> for a missing high-risk flag.
\<close>

theorem C8_risk_export:
  "(\<exists>all. mset all =
            mset (map return_row
                   (filter (\<lambda>u. suspicious u = Some True \<or> highRisk u = Some True) us)) \<and>
          sorted_wrt ranks_before all \<and> risk_export us = take 1000 all) \<and>
   length (risk_export us) =
     min 1000 (length (filter (\<lambda>u. suspicious u = Some True \<or> highRisk u = Some True) us)) \<and>
   (\<forall>e\<in>set (risk_export us).
      \<exists>u\<in>set us. (suspicious u = Some True \<or> highRisk u = Some True) \<and> e = return_row u) \<and>
   (\<forall>u\<in>set us. suspicious u = Some True \<or> highRisk u = Some True \<longrightarrow>
      return_row u \<in> set (risk_export us) \<or>
      (length (risk_export us) = 1000 \<and>
       (\<forall>e\<in>set (risk_export us). ranks_before e (return_row u)))) \<and>
   (\<forall>i j. i < j \<and> j < length (risk_export us) \<longrightarrow>
      ranks_before (risk_export us ! i) (risk_export us ! j)) \<and>
   row_highRisk (return_row u) = (highRisk u = Some True) \<and>
   row_coUsers (return_row u) = (case coUsers u of None \<Rightarrow> 0 | Some c \<Rightarrow> c) \<and>
   row_pr (return_row u) = round6 (case pr u of None \<Rightarrow> 0 | Some p \<Rightarrow> p) \<and>
   row_degree (return_row u) = (case degree u of None \<Rightarrow> 0 | Some d \<Rightarrow> d) \<and>
   row_triangles (return_row u) = (case triangles u of None \<Rightarrow> 0 | Some t \<Rightarrow> t) \<and>
   row_community (return_row u) = (case community u of None \<Rightarrow> - 1 | Some c \<Rightarrow> c)"
proof -
  let ?P = "\<lambda>u. suspicious u = Some True \<or> highRisk u = Some True"
  let ?rows = "map return_row (filter ?P us)"
  let ?all = "sort_key order_key ?rows"
  have ex: "risk_export us = take 1000 ?all"
    by (simp add: risk_export_def flagged_eq)
  have m: "mset ?all = mset ?rows" by simp
  have s: "sorted_wrt ranks_before ?all" by (rule sorted_rows_ranked)
  have 1: "\<exists>all. mset all = mset ?rows \<and> sorted_wrt ranks_before all \<and>
             risk_export us = take 1000 all"
    using m s ex by blast
  have 2: "length (risk_export us) = min 1000 (length (filter ?P us))"
    by (simp add: ex min.commute)
  have setall: "set ?all = return_row ` {u \<in> set us. ?P u}"
    by simp
  have 3: "\<forall>e\<in>set (risk_export us). \<exists>u\<in>set us. ?P u \<and> e = return_row u"
  proof
    fix e assume "e \<in> set (risk_export us)"
    then have "e \<in> set ?all" unfolding ex by (rule in_set_takeD)
    then show "\<exists>u\<in>set us. ?P u \<and> e = return_row u" unfolding setall by blast
  qed
  have 4: "\<forall>u\<in>set us. ?P u \<longrightarrow>
      return_row u \<in> set (risk_export us) \<or>
      (length (risk_export us) = 1000 \<and>
       (\<forall>e\<in>set (risk_export us). ranks_before e (return_row u)))"
  proof (intro ballI impI)
    fix u assume u: "u \<in> set us" "?P u"
    then have "return_row u \<in> set ?all" unfolding setall by blast
    then have "return_row u \<in> set (take 1000 ?all) \<union> set (drop 1000 ?all)"
      by (metis append_take_drop_id set_append)
    then consider "return_row u \<in> set (risk_export us)" | "return_row u \<in> set (drop 1000 ?all)"
      unfolding ex by blast
    then show "return_row u \<in> set (risk_export us) \<or>
      (length (risk_export us) = 1000 \<and>
       (\<forall>e\<in>set (risk_export us). ranks_before e (return_row u)))"
    proof cases
      case 1
      then show ?thesis by simp
    next
      case 2
      then have "drop 1000 ?all \<noteq> []" by auto
      then have "1000 < length ?all" by simp
      then have len: "length (risk_export us) = 1000" unfolding ex by simp
      have "\<forall>e\<in>set (risk_export us). ranks_before e (return_row u)"
        unfolding ex using sorted_wrt_take_drop[OF s _ 2] by blast
      with len show ?thesis by simp
    qed
  qed
  have 5: "\<forall>i j. i < j \<and> j < length (risk_export us) \<longrightarrow>
      ranks_before (risk_export us ! i) (risk_export us ! j)"
  proof -
    have "sorted_wrt ranks_before (risk_export us)"
      unfolding ex by (rule sorted_wrt_take[OF s])
    then show ?thesis by (simp add: sorted_wrt_iff_nth_less)
  qed
  have 6: "row_highRisk (return_row u) = (highRisk u = Some True)"
    by (cases "highRisk u") (auto simp: return_row_def)
  have 7: "row_coUsers (return_row u) = (case coUsers u of None \<Rightarrow> 0 | Some c \<Rightarrow> c)"
    "row_pr (return_row u) = round6 (case pr u of None \<Rightarrow> 0 | Some p \<Rightarrow> p)"
    "row_degree (return_row u) = (case degree u of None \<Rightarrow> 0 | Some d \<Rightarrow> d)"
    "row_triangles (return_row u) = (case triangles u of None \<Rightarrow> 0 | Some t \<Rightarrow> t)"
    "row_community (return_row u) = (case community u of None \<Rightarrow> - 1 | Some c \<Rightarrow> c)"
    by (simp_all add: return_row_def coalesce_case)
  show ?thesis using 1 2 3 4 5 6 7 by (intro conjI)
qed


theorem C8_risk_export_witness:
  "length (filter (\<lambda>u. suspicious u = Some True \<or> highRisk u = Some True) over_cap) = 1001 \<and>
   length (risk_export over_cap) = 1000 \<and>
   last over_cap = (plain_user ''top'' (1 / 10))\<lparr>suspicious := Some True, highRisk := Some True\<rparr> \<and>
   return_row (last over_cap) \<in> set (risk_export over_cap) \<and>
   risk_export over_cap ! 0 = return_row (last over_cap) \<and>
   row_user (risk_export over_cap ! 0) = ''top'' \<and>
   row_community (risk_export over_cap ! 0) = - 1"
proof -
  let ?low = "(plain_user ''low'' (2 / 10))\<lparr>coUsers := Some 3, suspicious := Some True\<rparr>"
  let ?top = "(plain_user ''top'' (1 / 10))\<lparr>suspicious := Some True, highRisk := Some True\<rparr>"
  note export = C8_risk_export[of over_cap "?top"]
  note c2 = export[THEN conjunct2, THEN conjunct1]
  note c3 = export[THEN conjunct2, THEN conjunct2, THEN conjunct1]
  note c4 = export[THEN conjunct2, THEN conjunct2, THEN conjunct2, THEN conjunct1]
  note c5 = export[THEN conjunct2, THEN conjunct2, THEN conjunct2, THEN conjunct2,
      THEN conjunct1]
  have last: "last over_cap = ?top" by (simp add: over_cap_def)
  have users: "set over_cap = {?low, ?top}" by (auto simp: over_cap_def)
  have n: "length (filter (\<lambda>u. suspicious u = Some True \<or> highRisk u = Some True) over_cap) = 1001"
    by (simp add: over_cap_def plain_user_def)
  have len: "length (risk_export over_cap) = 1000" unfolding c2 n by simp
  have hr: "row_highRisk (return_row ?top)" "\<not> row_highRisk (return_row ?low)"
    by (simp_all add: return_row_def plain_user_def)
  have rows: "\<forall>e\<in>set (risk_export over_cap). e = return_row ?low \<or> e = return_row ?top"
    using c3 unfolding users by blast
  have top_flagged: "suspicious ?top = Some True \<or> highRisk ?top = Some True" by simp
  have no_low_before_top: "\<not> ranks_before (return_row ?low) (return_row ?top)"
    using hr by (simp add: ranks_before_def)
  have inn: "return_row ?top \<in> set (risk_export over_cap)"
  proof (rule ccontr)
    assume out: "return_row ?top \<notin> set (risk_export over_cap)"
    have "?top \<in> set over_cap" using users by simp
    with c4 top_flagged out
    have all: "\<forall>e\<in>set (risk_export over_cap). ranks_before e (return_row ?top)" by blast
    from len obtain e where e: "e \<in> set (risk_export over_cap)"
      by (cases "risk_export over_cap") auto
    with rows out have "e = return_row ?low" by blast
    with all e no_low_before_top show False by blast
  qed
  have first: "risk_export over_cap ! 0 = return_row ?top"
  proof -
    from inn obtain j where j: "j < length (risk_export over_cap)"
      "risk_export over_cap ! j = return_row ?top"
      by (auto simp: in_set_conv_nth)
    show ?thesis
    proof (cases "j = 0")
      case True
      with j show ?thesis by simp
    next
      case False
      then have "0 < j \<and> j < length (risk_export over_cap)" using j by simp
      with c5 have "ranks_before (risk_export over_cap ! 0) (risk_export over_cap ! j)" by blast
      then have r: "ranks_before (risk_export over_cap ! 0) (return_row ?top)" using j by simp
      have "risk_export over_cap ! 0 \<in> set (risk_export over_cap)" using len by simp
      with rows have "risk_export over_cap ! 0 = return_row ?low \<or>
                      risk_export over_cap ! 0 = return_row ?top" by blast
      with r no_low_before_top show ?thesis by auto
    qed
  qed
  have u: "row_user (return_row ?top) = ''top''" "row_community (return_row ?top) = - 1"
    by (simp_all add: return_row_def plain_user_def)
  show ?thesis using n len last inn first u by simp
qed


end
